theory Spec2Isabelle
  imports Complex_Main "HOL-Library.Log_Nat" "HOL-Library.Word" "HOL-Library.Signed_Division"
begin

section \<open>The game engine: data model\<close>

text \<open>
  The development embeds \<^verbatim>\<open>GameEngine/GameEngine/Engine.cpp\<close> and
  \<^verbatim>\<open>GameEngine/GameEngine/Level.cpp\<close>. Objects live in explicit heaps indexed by
  their addresses, so that \<^verbatim>\<open>delete\<close> and dangling pointers are visible. Undefined
  behaviour of the C++ program is a value of type \<open>error\<close>.
\<close>

type_synonym sprite = nat
type_synonym level_ptr = nat
type_synonym listener = nat
type_synonym Uint32 = "32 word"

datatype error =
    NullPointer
  | UseAfterFree
  | DoubleFree
  | InvalidIterator
  | DivisionByZero
  | ConversionOverflow

text \<open>
  \<^verbatim>\<open>SDL_Rect\<close>, the boundary of a sprite. \<^verbatim>\<open>Sprite::Contains(Sprite*)\<close> is
  declared in \<^verbatim>\<open>Sprite.h\<close> but its body is not part of the sources; it enters as the
  parameter \<open>Contains\<close> of the environment below.
\<close>

record SDL_Rect =
  rect_x :: int
  rect_y :: int
  rect_w :: int
  rect_h :: int

text \<open>
  The payload pointers of a user event. \<^verbatim>\<open>EmitTimeEvent\<close> stores the addresses of
  the engine's own fields \<^verbatim>\<open>fps\<close> and \<^verbatim>\<open>frame_counter\<close>.
\<close>

datatype data_ptr = Null_ptr | Fps_ptr | Frame_counter_ptr

record SDL_Event =
  event_type :: Uint32
  key_keysym_sym :: int
  user_code :: int
  user_data1 :: data_ptr
  user_data2 :: data_ptr

definition SDL_QUIT :: Uint32 where "SDL_QUIT = 0x100"
definition SDL_KEYDOWN :: Uint32 where "SDL_KEYDOWN = 0x300"
definition SDL_MOUSEMOTION :: Uint32 where "SDL_MOUSEMOTION = 0x400"
definition SDL_MOUSEBUTTONDOWN :: Uint32 where "SDL_MOUSEBUTTONDOWN = 0x401"
definition SDL_MOUSEBUTTONUP :: Uint32 where "SDL_MOUSEBUTTONUP = 0x402"
definition SDL_MOUSEWHEEL :: Uint32 where "SDL_MOUSEWHEEL = 0x403"
definition SDL_USEREVENT :: nat where "SDL_USEREVENT = 0x8000"
definition SDL_LASTEVENT :: nat where "SDL_LASTEVENT = 0xFFFF"

text \<open>
  Calls that leave the engine (platform, window, application callbacks, sprites) are
  recorded, in order, in the field \<open>trace\<close> of the state.
\<close>

datatype obs =
    Obs_GetTimestamp
  | Obs_DrawSprites int
  | Obs_SDL_Delay Uint32
  | Obs_SDL_RegisterEvents
  | Obs_SDL_PushEvent SDL_Event
  | Obs_LoadLevel level_ptr
  | Obs_LoadSprite sprite
  | Obs_Quit
  | Obs_listener listener
  | Obs_collision listener sprite sprite
  | Obs_Sprite_DelegateEvent sprite SDL_Event

text \<open>
  \<^verbatim>\<open>Level\<close>: the vector \<^verbatim>\<open>sprites\<close> and the flag \<^verbatim>\<open>is_loaded\<close>. The field
  \<open>modifications\<close> is not a member of the class: it counts the \<^verbatim>\<open>push_back\<close> and
  \<^verbatim>\<open>erase\<close> calls made on the vector so far, each of which invalidates iterators into
  the vector.
\<close>

record level =
  sprites :: "sprite list"
  is_loaded :: bool
  modifications :: nat

text \<open>
  The engine together with the objects it reaches and the platform it runs on.
  \<^item> \<open>time_listeners\<close>, \<open>event_listeners\<close>: \<^verbatim>\<open>std::map<int, event_listener>\<close>, the
    entries in ascending key order; a listener is a function pointer, \<open>0\<close> is
    \<^verbatim>\<open>nullptr\<close>;
  \<^item> \<open>frame_counter\<close>: a 32-bit counter that wraps;
  \<^item> \<open>time_elapsed\<close>: the \<^verbatim>\<open>double\<close> holding a difference of two millisecond
    timestamps, an integer value;
  \<^item> \<open>time_event_type\<close>: the static \<^verbatim>\<open>Engine::time_event_type\<close>;
  \<^item> \<open>level_heap\<close>, \<open>sprite_heap\<close>: the \<^verbatim>\<open>Level\<close> and \<^verbatim>\<open>Sprite\<close> objects
    that exist; a deleted object has no entry;
  \<^item> \<open>queue\<close>, \<open>SDL_userevents\<close>, \<open>ticks\<close>: the platform's event queue, its
    counter of registered user events, and the number of clock readings made so far.
\<close>

record engine =
  fps :: int
  frame_counter :: Uint32
  time_elapsed :: int
  is_running :: bool
  levels :: "level_ptr list"
  current_level :: "level_ptr option"
  current_collision_listener :: listener
  time_listeners :: "(int \<times> listener) list"
  event_listeners :: "(int \<times> listener) list"
  time_event_type :: Uint32
  level_heap :: "level_ptr \<rightharpoonup> level"
  sprite_heap :: "sprite \<rightharpoonup> SDL_Rect"
  queue :: "SDL_Event list"
  SDL_userevents :: nat
  ticks :: nat
  trace :: "obs list"

text \<open>
  What application code may do from inside a callback: calls of the public interface of
  \<^verbatim>\<open>Engine\<close> and \<^verbatim>\<open>Level\<close>, and the position setters that \<^verbatim>\<open>Sprite.h\<close>
  declares. Registering listeners from inside a callback, re-entering \<^verbatim>\<open>Run\<close> and
  allocating objects are outside the model.
\<close>

datatype cmd =
    Quit_call
  | SetCollisionListener_call listener
  | SetCurrentLevel_call level_ptr
  | AddSprite_call level_ptr sprite
  | RemoveSprite_call level_ptr sprite
  | SetX_call sprite int
  | SetY_call sprite int

text \<open>
  The environment: the code behind the function pointers and the parts of the program
  and platform that are not in the sources.
  \<^item> \<open>event_listener_code l s\<close>: the calls made by the \<^verbatim>\<open>event_listener\<close> at address
    \<open>l\<close> when invoked in state \<open>s\<close>;
  \<^item> \<open>collision_listener_code l a b s\<close>: the same for a \<^verbatim>\<open>collision_listener\<close>;
  \<^item> \<open>Sprite_DelegateEvent_code sp e s\<close>: the calls made by
    \<^verbatim>\<open>Sprite::DelegateEvent\<close> (body not in the sources);
  \<^item> \<open>Contains\<close>: the boundary test of \<^verbatim>\<open>Sprite::Contains(Sprite*)\<close>;
  \<^item> \<open>clock n\<close>: the \<open>n\<close>-th reading of \<^verbatim>\<open>gettimeofday\<close>, in milliseconds.
\<close>

record env =
  event_listener_code :: "listener \<Rightarrow> engine \<Rightarrow> cmd list"
  collision_listener_code :: "listener \<Rightarrow> sprite \<Rightarrow> sprite \<Rightarrow> engine \<Rightarrow> cmd list"
  Sprite_DelegateEvent_code :: "sprite \<Rightarrow> SDL_Event \<Rightarrow> engine \<Rightarrow> cmd list"
  Contains :: "SDL_Rect \<Rightarrow> SDL_Rect \<Rightarrow> bool"
  clock :: "nat \<Rightarrow> int"

definition record_obs :: "obs \<Rightarrow> engine \<Rightarrow> engine" where
  "record_obs ob s = s\<lparr>trace := trace s @ [ob]\<rparr>"

section \<open>Loops\<close>

text \<open>
  A range-based \<^verbatim>\<open>for\<close> over a container that nothing can change while the loop
  runs (a temporary copy, or a registry that callbacks cannot reach).
\<close>

fun for_each :: "'a list \<Rightarrow> ('a \<Rightarrow> engine \<Rightarrow> error + engine) \<Rightarrow> engine \<Rightarrow> error + engine" where
  "for_each [] body s = Inr s"
| "for_each (x # xs) body s =
     (case body x s of Inl e \<Rightarrow> Inl e | Inr s' \<Rightarrow> for_each xs body s')"

text \<open>
  A range-based \<^verbatim>\<open>for\<close> over a vector that the loop body can reach. The loop keeps two
  iterators, the current position and the end position fixed when the loop starts;
  \<open>range_for n i\<close> is the loop with \<open>n\<close> positions left, standing at position \<open>i\<close>. The
  vector is read afresh from the state at every step: \<open>vec s\<close>; \<open>cnt s\<close> is the number of
  \<^verbatim>\<open>push_back\<close> and \<^verbatim>\<open>erase\<close> calls made on it so far. Each such call invalidates the
  end iterator that the loop holds (an \<^verbatim>\<open>erase\<close> before the position, and a
  \<^verbatim>\<open>push_back\<close> that moves the storage, also the current one), so when the body has
  made one, the increment and test that follow use an invalidated iterator:
  \<open>InvalidIterator\<close>. So is reading a position that is not inside the vector.
\<close>

fun range_for ::
  "nat \<Rightarrow> nat \<Rightarrow> (engine \<Rightarrow> error + 'a list) \<Rightarrow> (engine \<Rightarrow> nat) \<Rightarrow>
   ('a \<Rightarrow> engine \<Rightarrow> error + engine) \<Rightarrow> engine \<Rightarrow> error + engine" where
  "range_for 0 i vec cnt body s = Inr s"
| "range_for (Suc n) i vec cnt body s =
     (case vec s of
        Inl e \<Rightarrow> Inl e
      | Inr v \<Rightarrow>
          if i < length v
          then (case body (v ! i) s of
                  Inl e \<Rightarrow> Inl e
                | Inr s' \<Rightarrow>
                    if cnt s' = cnt s then range_for n (Suc i) vec cnt body s'
                    else Inl InvalidIterator)
          else Inl InvalidIterator)"

definition range_for_vec ::
  "(engine \<Rightarrow> error + 'a list) \<Rightarrow> (engine \<Rightarrow> nat) \<Rightarrow> ('a \<Rightarrow> engine \<Rightarrow> error + engine) \<Rightarrow>
   engine \<Rightarrow> error + engine" where
  "range_for_vec vec cnt body s =
     (case vec s of Inl e \<Rightarrow> Inl e | Inr v \<Rightarrow> range_for (length v) 0 vec cnt body s)"

section \<open>Level\<close>

text \<open>The member \<^verbatim>\<open>sprites\<close> of the level at address \<open>l\<close>, as a place that later steps can change.\<close>

definition Level_sprites :: "level_ptr \<Rightarrow> engine \<Rightarrow> error + sprite list" where
  "Level_sprites l s = (case level_heap s l of None \<Rightarrow> Inl NullPointer | Some lv \<Rightarrow> Inr (sprites lv))"

text \<open>The number of \<^verbatim>\<open>push_back\<close> and \<^verbatim>\<open>erase\<close> calls made on that vector so far.\<close>

definition Level_modifications :: "level_ptr \<Rightarrow> engine \<Rightarrow> nat" where
  "Level_modifications l s = (case level_heap s l of None \<Rightarrow> 0 | Some lv \<Rightarrow> modifications lv)"

text \<open>\<^verbatim>\<open>Level::AddSprite\<close> (Level.cpp, lines 12 to 17). The window is outside the sources: the call of
  \<^verbatim>\<open>Window::LoadSprite\<close> is recorded.\<close>

definition Window_LoadSprite :: "sprite \<Rightarrow> engine \<Rightarrow> engine" where
  "Window_LoadSprite sp s = record_obs (Obs_LoadSprite sp) s"

definition AddSprite :: "level_ptr \<Rightarrow> sprite \<Rightarrow> engine \<Rightarrow> error + engine" where
  "AddSprite l sp s =
     (case level_heap s l of
        None \<Rightarrow> Inl NullPointer
      | Some lv \<Rightarrow>
          let s1 = s\<lparr>level_heap := (level_heap s)(l \<mapsto>
                     lv\<lparr>sprites := sprites lv @ [sp], modifications := Suc (modifications lv)\<rparr>)\<rparr>
          in Inr (if is_loaded lv then Window_LoadSprite sp s1 else s1))"

text \<open>\<^verbatim>\<open>sprites.erase(sprites.begin() + i)\<close>.\<close>

definition erase_at :: "nat \<Rightarrow> 'a list \<Rightarrow> 'a list" where
  "erase_at i v = take i v @ drop (Suc i) v"

text \<open>
  The loop of \<^verbatim>\<open>RemoveSprite\<close>: the index advances also after an erase, and the size is
  read again at every test.
\<close>

function RemoveSprite_loop :: "nat \<Rightarrow> sprite \<Rightarrow> sprite list \<Rightarrow> sprite list" where
  "RemoveSprite_loop i sp v =
     (if i < length v
      then (if sp = v ! i then RemoveSprite_loop (Suc i) sp (erase_at i v)
            else RemoveSprite_loop (Suc i) sp v)
      else v)"
  by pat_completeness auto
termination
  by (relation "measure (\<lambda>(i, sp, v). Suc (length v) - i)") (auto simp: erase_at_def)

declare RemoveSprite_loop.simps [simp del]

text \<open>\<^verbatim>\<open>delete\<close> of a sprite: a null pointer is ignored, an object is destroyed once.\<close>

definition delete_sprite :: "sprite \<Rightarrow> engine \<Rightarrow> error + engine" where
  "delete_sprite sp s =
     (if sp = 0 then Inr s
      else if sprite_heap s sp = None then Inl DoubleFree
      else Inr (s\<lparr>sprite_heap := (sprite_heap s)(sp := None)\<rparr>))"

text \<open>\<^verbatim>\<open>Level::RemoveSprite\<close> (Level.cpp, lines 21 to 28): the object is deleted first, then its
  entries are searched. Every \<^verbatim>\<open>erase\<close> of the loop shortens the vector by one, so the
  number of \<^verbatim>\<open>erase\<close> calls is the difference of the lengths.\<close>

definition RemoveSprite :: "level_ptr \<Rightarrow> sprite \<Rightarrow> engine \<Rightarrow> error + engine" where
  "RemoveSprite l sp s =
     (case level_heap s l of
        None \<Rightarrow> Inl NullPointer
      | Some lv0 \<Rightarrow>
          (case delete_sprite sp s of
             Inl e \<Rightarrow> Inl e
           | Inr s1 \<Rightarrow>
               let v = RemoveSprite_loop 0 sp (sprites lv0)
               in Inr (s1\<lparr>level_heap :=
                         (level_heap s1)(l \<mapsto>
                            lv0\<lparr>sprites := v,
                                modifications := modifications lv0 + (length (sprites lv0) - length v)\<rparr>)\<rparr>)))"

text \<open>\<^verbatim>\<open>GetSprites\<close> returns the vector by value: the result is a list, not a place.\<close>

definition GetSprites :: "level_ptr \<Rightarrow> engine \<Rightarrow> error + sprite list" where
  "GetSprites l s = Level_sprites l s"

text \<open>\<^verbatim>\<open>Level::SetLoaded\<close> (Level.cpp, lines 43 to 45).\<close>

definition SetLoaded :: "level_ptr \<Rightarrow> bool \<Rightarrow> engine \<Rightarrow> error + engine" where
  "SetLoaded l b s =
     (case level_heap s l of
        None \<Rightarrow> Inl NullPointer
      | Some lv \<Rightarrow> Inr (s\<lparr>level_heap := (level_heap s)(l \<mapsto> lv\<lparr>is_loaded := b\<rparr>)\<rparr>))"

section \<open>Engine: registration and control\<close>

text \<open>\<^verbatim>\<open>Engine::AddLevel\<close>, \<^verbatim>\<open>SetCurrentLevel\<close> and \<^verbatim>\<open>SetCollisionListener\<close> (Engine.cpp, lines 37 to
  50). The call of \<^verbatim>\<open>Window::LoadLevel\<close> is recorded.\<close>

definition AddLevel :: "level_ptr \<Rightarrow> engine \<Rightarrow> engine" where
  "AddLevel l s = s\<lparr>levels := levels s @ [l]\<rparr>"

definition Window_LoadLevel :: "level_ptr \<Rightarrow> engine \<Rightarrow> engine" where
  "Window_LoadLevel l s = record_obs (Obs_LoadLevel l) s"

definition SetCurrentLevel :: "level_ptr \<Rightarrow> engine \<Rightarrow> engine" where
  "SetCurrentLevel l s = Window_LoadLevel l (s\<lparr>current_level := Some l\<rparr>)"

definition SetCollisionListener :: "listener \<Rightarrow> engine \<Rightarrow> engine" where
  "SetCollisionListener l s = s\<lparr>current_collision_listener := l\<rparr>"

text \<open>\<^verbatim>\<open>m[k] = v\<close> on a \<^verbatim>\<open>std::map\<close> kept as its entries in ascending key order.\<close>

fun map_assign :: "int \<Rightarrow> 'v \<Rightarrow> (int \<times> 'v) list \<Rightarrow> (int \<times> 'v) list" where
  "map_assign k v [] = [(k, v)]"
| "map_assign k v ((k', v') # m) =
     (if k < k' then (k, v) # (k', v') # m
      else if k = k' then (k, v) # m
      else (k', v') # map_assign k v m)"

text \<open>\<^verbatim>\<open>Engine::AddTimeListener\<close> and \<^verbatim>\<open>AddEventListener\<close> (Engine.cpp, lines 55 to 64).\<close>

definition AddTimeListener :: "listener \<Rightarrow> int \<Rightarrow> engine \<Rightarrow> engine" where
  "AddTimeListener l delay s = s\<lparr>time_listeners := map_assign delay l (time_listeners s)\<rparr>"


text \<open>\<^verbatim>\<open>Engine::GetTimeElapsed\<close> and \<^verbatim>\<open>Quit\<close> (Engine.cpp, lines 67 to 69 and 82 to 84). The
  call of \<^verbatim>\<open>Quit\<close> is recorded in the trace.\<close>

definition GetTimeElapsed :: "engine \<Rightarrow> int" where
  "GetTimeElapsed s = time_elapsed s"

definition Quit :: "engine \<Rightarrow> engine" where
  "Quit s = record_obs Obs_Quit (s\<lparr>is_running := False\<rparr>)"

section \<open>Callbacks\<close>

text \<open>The setters \<^verbatim>\<open>SetX\<close> and \<^verbatim>\<open>SetY\<close> that \<^verbatim>\<open>Sprite.h\<close> declares, on the boundary.\<close>

definition Sprite_SetX :: "sprite \<Rightarrow> int \<Rightarrow> engine \<Rightarrow> error + engine" where
  "Sprite_SetX sp v s =
     (case sprite_heap s sp of
        None \<Rightarrow> Inl UseAfterFree
      | Some r \<Rightarrow> Inr (s\<lparr>sprite_heap := (sprite_heap s)(sp \<mapsto> r\<lparr>rect_x := v\<rparr>)\<rparr>))"

definition Sprite_SetY :: "sprite \<Rightarrow> int \<Rightarrow> engine \<Rightarrow> error + engine" where
  "Sprite_SetY sp v s =
     (case sprite_heap s sp of
        None \<Rightarrow> Inl UseAfterFree
      | Some r \<Rightarrow> Inr (s\<lparr>sprite_heap := (sprite_heap s)(sp \<mapsto> r\<lparr>rect_y := v\<rparr>)\<rparr>))"

text \<open>Running the calls of a callback, one after the other; the first error ends them.\<close>

fun exec_cmd :: "cmd \<Rightarrow> engine \<Rightarrow> error + engine" where
  "exec_cmd Quit_call s = Inr (Quit s)"
| "exec_cmd (SetCollisionListener_call l) s = Inr (SetCollisionListener l s)"
| "exec_cmd (SetCurrentLevel_call l) s = Inr (SetCurrentLevel l s)"
| "exec_cmd (AddSprite_call l sp) s = AddSprite l sp s"
| "exec_cmd (RemoveSprite_call l sp) s = RemoveSprite l sp s"
| "exec_cmd (SetX_call sp v) s = Sprite_SetX sp v s"
| "exec_cmd (SetY_call sp v) s = Sprite_SetY sp v s"

fun exec_cmds :: "cmd list \<Rightarrow> engine \<Rightarrow> error + engine" where
  "exec_cmds [] s = Inr s"
| "exec_cmds (c # cs) s = (case exec_cmd c s of Inl e \<Rightarrow> Inl e | Inr s' \<Rightarrow> exec_cmds cs s')"

text \<open>Calling through a function pointer; calling \<^verbatim>\<open>nullptr\<close> is an error.\<close>

definition call_event_listener :: "env \<Rightarrow> listener \<Rightarrow> engine \<Rightarrow> error + engine" where
  "call_event_listener env l s =
     (if l = 0 then Inl NullPointer
      else let s1 = record_obs (Obs_listener l) s
           in exec_cmds (event_listener_code env l s1) s1)"

definition call_collision_listener ::
  "env \<Rightarrow> listener \<Rightarrow> sprite \<Rightarrow> sprite \<Rightarrow> engine \<Rightarrow> error + engine" where
  "call_collision_listener env l a b s =
     (let s1 = record_obs (Obs_collision l a b) s
      in exec_cmds (collision_listener_code env l a b s1) s1)"

text \<open>Method calls on a sprite; the object must still exist.\<close>

definition Sprite_DelegateEvent :: "env \<Rightarrow> sprite \<Rightarrow> SDL_Event \<Rightarrow> engine \<Rightarrow> error + engine" where
  "Sprite_DelegateEvent env sp e s =
     (if sprite_heap s sp = None then Inl UseAfterFree
      else let s1 = record_obs (Obs_Sprite_DelegateEvent sp e) s
           in exec_cmds (Sprite_DelegateEvent_code env sp e s1) s1)"

definition Sprite_Contains :: "env \<Rightarrow> sprite \<Rightarrow> sprite \<Rightarrow> engine \<Rightarrow> error + bool" where
  "Sprite_Contains env a b s =
     (case sprite_heap s a of
        None \<Rightarrow> Inl UseAfterFree
      | Some ra \<Rightarrow>
          (case sprite_heap s b of
             None \<Rightarrow> Inl UseAfterFree
           | Some rb \<Rightarrow> Inr (Contains env ra rb)))"

section \<open>Engine: the time event\<close>

text \<open>
  The platform, as SDL documents it: \<^verbatim>\<open>SDL_RegisterEvents\<close> hands out event numbers
  from its counter while they do not pass \<^verbatim>\<open>SDL_LASTEVENT\<close> and answers
  \<^verbatim>\<open>(Uint32)-1\<close> otherwise; \<^verbatim>\<open>SDL_PushEvent\<close> appends to the queue (a full queue
  is not modelled); \<^verbatim>\<open>SDL_PollEvent\<close> takes the first event off the queue.
\<close>

definition SDL_RegisterEvents :: "nat \<Rightarrow> engine \<Rightarrow> Uint32 \<times> engine" where
  "SDL_RegisterEvents numevents s =
     (let s1 = record_obs Obs_SDL_RegisterEvents s
      in if 0 < numevents \<and> SDL_userevents s + numevents \<le> SDL_LASTEVENT
         then (of_nat (SDL_userevents s), s1\<lparr>SDL_userevents := SDL_userevents s + numevents\<rparr>)
         else (- 1, s1))"

definition SDL_PushEvent :: "SDL_Event \<Rightarrow> engine \<Rightarrow> engine" where
  "SDL_PushEvent e s = record_obs (Obs_SDL_PushEvent e) (s\<lparr>queue := queue s @ [e]\<rparr>)"

definition SDL_PollEvent :: "engine \<Rightarrow> (SDL_Event \<times> engine) option" where
  "SDL_PollEvent s = (case queue s of [] \<Rightarrow> None | e # q \<Rightarrow> Some (e, s\<lparr>queue := q\<rparr>))"

text \<open>\<^verbatim>\<open>Engine::EmitTimeEvent\<close> (Engine.cpp, lines 90 to 103).\<close>

definition time_event :: "Uint32 \<Rightarrow> SDL_Event" where
  "time_event ty =
     \<lparr>event_type = ty, key_keysym_sym = 0, user_code = 0,
      user_data1 = Fps_ptr, user_data2 = Frame_counter_ptr\<rparr>"

definition EmitTimeEvent :: "engine \<Rightarrow> engine" where
  "EmitTimeEvent s =
     (let s1 = (if time_event_type s = 0
                then (case SDL_RegisterEvents 1 s of (r, s') \<Rightarrow> s'\<lparr>time_event_type := r\<rparr>)
                else s)
      in if time_event_type s1 \<noteq> - 1
         then SDL_PushEvent (time_event (time_event_type s1)) s1
         else s1)"

section \<open>Engine: collision detection\<close>

text \<open>\<^verbatim>\<open>current_level->GetSprites()\<close>; the pointer is null until \<^verbatim>\<open>SetCurrentLevel\<close>.\<close>

definition current_level_GetSprites :: "engine \<Rightarrow> error + sprite list" where
  "current_level_GetSprites s =
     (case current_level s of None \<Rightarrow> Inl NullPointer | Some l \<Rightarrow> GetSprites l s)"

text \<open>The body of the inner loop of \<^verbatim>\<open>DetectCollision\<close>.\<close>

definition collision_test :: "env \<Rightarrow> sprite \<Rightarrow> sprite \<Rightarrow> engine \<Rightarrow> error + engine" where
  "collision_test env sprite other_sprite s =
     (if sprite \<noteq> other_sprite
      then (case Sprite_Contains env sprite other_sprite s of
              Inl e \<Rightarrow> Inl e
            | Inr c \<Rightarrow>
                if c
                then (if current_collision_listener s \<noteq> 0
                      then call_collision_listener env (current_collision_listener s)
                             sprite other_sprite s
                      else Inr s)
                else Inr s)
      else Inr s)"

text \<open>
  Both loops run over the temporary that \<^verbatim>\<open>GetSprites\<close> returned: the vector read at
  every step is that temporary, whatever the state has become, and nothing modifies it.
\<close>

definition DetectCollision :: "env \<Rightarrow> engine \<Rightarrow> error + engine" where
  "DetectCollision env s =
     (case current_level_GetSprites s of
        Inl e \<Rightarrow> Inl e
      | Inr outer \<Rightarrow>
          range_for_vec (\<lambda>_. Inr outer) (\<lambda>_. 0)
            (\<lambda>sprite s1.
               case current_level_GetSprites s1 of
                 Inl e \<Rightarrow> Inl e
               | Inr inner \<Rightarrow>
                   range_for_vec (\<lambda>_. Inr inner) (\<lambda>_. 0)
                     (\<lambda>other_sprite. collision_test env sprite other_sprite) s1)
            s)"

section \<open>Engine: event dispatch\<close>

text \<open>\<^verbatim>\<open>Engine::HandleEvent\<close> (Engine.cpp, lines 137 to 145): the body of the loop, and the loop
  over the registry. The key, an \<^verbatim>\<open>int\<close>, is compared with the event type as a
  \<^verbatim>\<open>Uint32\<close>.\<close>

definition HandleEvent_entry ::
  "env \<Rightarrow> SDL_Event \<Rightarrow> bool \<Rightarrow> int \<times> listener \<Rightarrow> engine \<Rightarrow> error + engine" where
  "HandleEvent_entry env e mouse_event entry s =
     (if mouse_event \<and> word_of_int (fst entry) = event_type e
      then call_event_listener env (snd entry) s
      else if \<not> mouse_event \<and> fst entry = key_keysym_sym e
      then call_event_listener env (snd entry) s
      else Inr s)"

definition HandleEvent :: "env \<Rightarrow> SDL_Event \<Rightarrow> bool \<Rightarrow> engine \<Rightarrow> error + engine" where
  "HandleEvent env e mouse_event s =
     for_each (event_listeners s) (HandleEvent_entry env e mouse_event) s"

text \<open>Reading an \<^verbatim>\<open>int\<close> through a payload pointer.\<close>

definition deref :: "data_ptr \<Rightarrow> engine \<Rightarrow> error + int" where
  "deref p s =
     (case p of
        Null_ptr \<Rightarrow> Inl NullPointer
      | Fps_ptr \<Rightarrow> Inr (fps s)
      | Frame_counter_ptr \<Rightarrow> Inr (sint (frame_counter s)))"

text \<open>
  The arithmetic of \<^verbatim>\<open>double\<close> (IEEE 754 binary64, rounding to nearest, ties to even):
  a finite \<^verbatim>\<open>double\<close> is the rational number it stands for, and every operation yields
  the exact result rounded to 53 significant bits. \<open>log2_floor x\<close> is the binary exponent
  of \<open>x > 0\<close>: the power of two with this exponent is at most \<open>x\<close>, the next one is
  greater. Overflow to infinity and subnormal numbers are not modelled: the nonzero
  values that \<^verbatim>\<open>HandleTime\<close> computes from two 32-bit integers have exponents between
  -10 and 52.
\<close>

definition log2_floor :: "rat \<Rightarrow> int" where
  "log2_floor x = (if 1 \<le> x then bitlen \<lfloor>x\<rfloor> - 1 else - bitlen (\<lceil>1 / x\<rceil> - 1))"

definition round_ties_even :: "rat \<Rightarrow> int" where
  "round_ties_even x =
     (let n = \<lfloor>x\<rfloor>; r = x - of_int n
      in if r < 1 / 2 then n else if 1 / 2 < r then n + 1 else if even n then n else n + 1)"

definition to_double :: "rat \<Rightarrow> rat" where
  "to_double x =
     (if x = 0 then 0
      else let e = log2_floor \<bar>x\<bar> - 52
           in of_int (round_ties_even (x / 2 powi e)) * 2 powi e)"

definition double_div :: "rat \<Rightarrow> rat \<Rightarrow> rat" where
  "double_div a b = to_double (a / b)"

definition double_mul :: "rat \<Rightarrow> rat \<Rightarrow> rat" where
  "double_mul a b = to_double (a * b)"

text \<open>
  \<^verbatim>\<open>round\<close> of the C library: the nearest integer, halfway cases away from zero. Its
  result is an integer held in a \<^verbatim>\<open>double\<close>.
\<close>

definition round_double :: "rat \<Rightarrow> int" where
  "round_double x = (if 0 \<le> x then \<lfloor>x + 1 / 2\<rfloor> else - \<lfloor>- x + 1 / 2\<rfloor>)"

text \<open>
  The value of \<^verbatim>\<open>round((fps / 1000.0) * entry.first)\<close>: both integers are converted to
  \<^verbatim>\<open>double\<close>, the quotient is rounded, then the product.
\<close>

definition period_frames :: "int \<Rightarrow> int \<Rightarrow> int" where
  "period_frames fps_v delay =
     round_double (double_mul (double_div (to_double (of_int fps_v)) 1000) (to_double (of_int delay)))"

text \<open>
  The conversion \<^verbatim>\<open>(int)\<close> of an integral \<^verbatim>\<open>double\<close>: undefined when the value is
  outside the range of a 32-bit \<^verbatim>\<open>int\<close>.
\<close>

definition int_range :: "int \<Rightarrow> bool" where
  "int_range n \<longleftrightarrow> - (2 ^ 31) \<le> n \<and> n < 2 ^ 31"

definition double_to_int :: "int \<Rightarrow> error + int" where
  "double_to_int n = (if int_range n then Inr n else Inl ConversionOverflow)"

text \<open>The body of the loop of \<^verbatim>\<open>HandleTime\<close>; \<open>smod\<close> is the remainder of C++.\<close>

definition HandleTime_entry ::
  "env \<Rightarrow> SDL_Event \<Rightarrow> int \<times> listener \<Rightarrow> engine \<Rightarrow> error + engine" where
  "HandleTime_entry env e entry s =
     (case deref (user_data1 e) s of
        Inl err \<Rightarrow> Inl err
      | Inr fps_v \<Rightarrow>
          (case deref (user_data2 e) s of
             Inl err \<Rightarrow> Inl err
           | Inr frame_counter_v \<Rightarrow>
               (case double_to_int (period_frames fps_v (fst entry)) of
                  Inl err \<Rightarrow> Inl err
                | Inr rhs \<Rightarrow>
                    if rhs > 0
                    then (let result = frame_counter_v smod rhs
                          in if result = 0 then call_event_listener env (snd entry) s else Inr s)
                    else call_event_listener env (snd entry) s)))"

text \<open>\<^verbatim>\<open>Engine::HandleTime\<close> (Engine.cpp, lines 152 to 166).\<close>

definition HandleTime :: "env \<Rightarrow> SDL_Event \<Rightarrow> engine \<Rightarrow> error + engine" where
  "HandleTime env e s = for_each (time_listeners s) (HandleTime_entry env e) s"

text \<open>
  \<^verbatim>\<open>Level::PropagateEventToSprites\<close> runs over the member vector itself, which the
  sprites' handlers can reach through \<^verbatim>\<open>AddSprite\<close> and \<^verbatim>\<open>RemoveSprite\<close>.
\<close>

definition PropagateEventToSprites ::
  "env \<Rightarrow> level_ptr \<Rightarrow> SDL_Event \<Rightarrow> engine \<Rightarrow> error + engine" where
  "PropagateEventToSprites env l e s =
     range_for_vec (Level_sprites l) (Level_modifications l)
       (\<lambda>sprite. Sprite_DelegateEvent env sprite e) s"

text \<open>The chain of tests on the event type at the head of \<^verbatim>\<open>DelegateEvent\<close>.\<close>

definition route_event :: "env \<Rightarrow> SDL_Event \<Rightarrow> engine \<Rightarrow> error + engine" where
  "route_event env e s =
     (if event_type e = SDL_MOUSEMOTION \<or> event_type e = SDL_MOUSEBUTTONDOWN
         \<or> event_type e = SDL_MOUSEBUTTONUP \<or> event_type e = SDL_MOUSEWHEEL
      then HandleEvent env e True s
      else if event_type e = SDL_KEYDOWN then HandleEvent env e False s
      else if event_type e = time_event_type s then HandleTime env e s
      else if event_type e = SDL_QUIT then Inr (Quit s)
      else Inr s)"

text \<open>\<^verbatim>\<open>Engine::DelegateEvent\<close> (Engine.cpp, lines 122 to 133).\<close>

definition DelegateEvent :: "env \<Rightarrow> SDL_Event \<Rightarrow> engine \<Rightarrow> error + engine" where
  "DelegateEvent env e s =
     (case route_event env e s of
        Inl err \<Rightarrow> Inl err
      | Inr s1 \<Rightarrow>
          (case current_level s1 of
             None \<Rightarrow> Inl NullPointer
           | Some l \<Rightarrow> PropagateEventToSprites env l e s1))"

text \<open>
  \<^verbatim>\<open>PollEvent\<close> runs until the queue is empty. It terminates because nothing that
  \<^verbatim>\<open>DelegateEvent\<close> reaches puts an event on the queue.
\<close>

function PollEvent :: "env \<Rightarrow> engine \<Rightarrow> error + engine" where
  "PollEvent env s =
     (case SDL_PollEvent s of
        None \<Rightarrow> Inr s
      | Some (e, s1) \<Rightarrow>
          (case DelegateEvent env e s1 of
             Inl err \<Rightarrow> Inl err
           | Inr s2 \<Rightarrow> PollEvent env s2))"
  by pat_completeness auto
termination
proof (relation "measure (\<lambda>(env, s). length (queue s))")
  show "wf (measure (\<lambda>(env, s). length (queue s)))" by simp
next
  fix env :: env and s :: engine and x2 x y x2a
  assume a: "SDL_PollEvent s = Some x2" "(x, y) = x2" "DelegateEvent env x y = Inr x2a"
  have cmd: "queue b = queue a" if "exec_cmd c a = Inr b" for c a b
    using that
    by (cases c)
       (auto simp: Quit_def record_obs_def SetCollisionListener_def SetCurrentLevel_def
          Window_LoadLevel_def AddSprite_def Window_LoadSprite_def RemoveSprite_def
          delete_sprite_def Sprite_SetX_def Sprite_SetY_def Let_def
          split: option.splits if_splits sum.splits)
  have cmds: "queue b = queue a" if "exec_cmds cs a = Inr b" for cs a b
    using that by (induction cs arbitrary: a) (auto split: sum.splits dest: cmd)
  have lis: "queue b = queue a" if "call_event_listener env l a = Inr b" for l a b
    using that by (auto simp: call_event_listener_def Let_def record_obs_def split: if_splits dest!: cmds)
  have fe: "queue b = queue a"
    if "for_each xs f a = Inr b" and "\<And>x a b. f x a = Inr b \<Longrightarrow> queue b = queue a"
    for xs :: "(int \<times> listener) list" and f a b
  proof -
    show ?thesis using that(1)
    proof (induction xs arbitrary: a)
      case Nil then show ?case by simp
    next
      case (Cons x xs)
      then obtain m where m: "f x a = Inr m" "for_each xs f m = Inr b"
        by (auto split: sum.splits)
      from that(2)[OF m(1)] Cons.IH[OF m(2)] show ?case by simp
    qed
  qed
  have sp: "queue b = queue a" if "Sprite_DelegateEvent env p e a = Inr b" for p e a b
    using that by (auto simp: Sprite_DelegateEvent_def Let_def record_obs_def split: if_splits dest!: cmds)
  have rf: "queue b = queue a"
    if "range_for n i vec cnt f a = Inr b" and "\<And>x a b. f x a = Inr b \<Longrightarrow> queue b = queue a"
    for n i cnt f a b and vec :: "engine \<Rightarrow> error + sprite list"
  proof -
    show ?thesis using that(1)
    proof (induction n arbitrary: i a)
      case 0 then show ?case by simp
    next
      case (Suc n)
      then obtain v m where m: "f (v ! i) a = Inr m" "range_for n (Suc i) vec cnt f m = Inr b"
        by (auto split: sum.splits if_splits)
      from that(2)[OF m(1)] Suc.IH[OF m(2)] show ?case by simp
    qed
  qed
  have route: "queue b = queue a" if "route_event env e a = Inr b" for e a b
    using that
    by (auto simp: route_event_def HandleEvent_def HandleTime_def HandleEvent_entry_def
          HandleTime_entry_def Quit_def record_obs_def Let_def
          split: if_splits sum.splits dest!: fe dest: lis)
  have "queue x2a = queue y"
    using a(3)
    by (auto simp: DelegateEvent_def PropagateEventToSprites_def range_for_vec_def
          split: sum.splits option.splits dest!: route rf dest: sp)
  moreover have "length (queue y) < length (queue s)"
    using a(1,2) by (auto simp: SDL_PollEvent_def split: list.splits)
  ultimately show "((env, x2a), (env, s)) \<in> measure (\<lambda>(env, s). length (queue s))"
    by simp
qed

declare PollEvent.simps [simp del]

section \<open>Engine: the main loop\<close>

text \<open>\<^verbatim>\<open>Engine::GetTimestamp\<close> and \<^verbatim>\<open>SetTimeElapsed\<close> (Engine.cpp, lines 177 to 186), and the
  calls of \<^verbatim>\<open>Window::DrawSprites\<close> and \<^verbatim>\<open>SDL_Delay\<close>, which are recorded.\<close>

definition GetTimestamp :: "env \<Rightarrow> engine \<Rightarrow> int \<times> engine" where
  "GetTimestamp env s = (clock env (ticks s), record_obs Obs_GetTimestamp (s\<lparr>ticks := Suc (ticks s)\<rparr>))"

definition SetTimeElapsed :: "int \<Rightarrow> int \<Rightarrow> engine \<Rightarrow> engine" where
  "SetTimeElapsed start_time stop_time s = s\<lparr>time_elapsed := stop_time - start_time\<rparr>"

definition Window_DrawSprites :: "int \<Rightarrow> engine \<Rightarrow> engine" where
  "Window_DrawSprites t s = record_obs (Obs_DrawSprites t) s"

definition SDL_Delay :: "Uint32 \<Rightarrow> engine \<Rightarrow> engine" where
  "SDL_Delay ms s = record_obs (Obs_SDL_Delay ms) s"

text \<open>
  The body of the \<^verbatim>\<open>while\<close> loop of \<^verbatim>\<open>Run\<close>. The quotient \<^verbatim>\<open>1000 / fps\<close> is
  the truncating division of C++ (\<open>sdiv\<close>), undefined at \<open>fps = 0\<close>, and is passed as
  a \<^verbatim>\<open>Uint32\<close>.
\<close>

definition Run_iteration :: "env \<Rightarrow> engine \<Rightarrow> error + engine" where
  "Run_iteration env s =
     (case GetTimestamp env s of
        (start_time, s1) \<Rightarrow>
          (case PollEvent env s1 of
             Inl e \<Rightarrow> Inl e
           | Inr s2 \<Rightarrow>
               let s3 = Window_DrawSprites (time_elapsed s2) s2;
                   s4 = s3\<lparr>frame_counter := frame_counter s3 + 1\<rparr>
               in (case DetectCollision env s4 of
                     Inl e \<Rightarrow> Inl e
                   | Inr s5 \<Rightarrow>
                       let s6 = EmitTimeEvent s5
                       in if fps s6 = 0 then Inl DivisionByZero
                          else let s7 = SDL_Delay (word_of_int (1000 sdiv fps s6)) s6
                               in (case GetTimestamp env s7 of
                                     (stop_time, s8) \<Rightarrow>
                                       Inr (SetTimeElapsed start_time stop_time s8)))))"

text \<open>
  The loop of \<^verbatim>\<open>Run\<close>, with a bound on the number of iterations: \<open>None\<close> when the
  bound is reached while the flag is still set.
\<close>

fun Run_loop :: "env \<Rightarrow> nat \<Rightarrow> engine \<Rightarrow> (error + engine) option" where
  "Run_loop env 0 s = (if is_running s then None else Some (Inr s))"
| "Run_loop env (Suc n) s =
     (if is_running s
      then (case Run_iteration env s of
              Inl e \<Rightarrow> Some (Inl e)
            | Inr s' \<Rightarrow> Run_loop env n s')
      else Some (Inr s))"

text \<open>\<^verbatim>\<open>Engine::Run\<close> (Engine.cpp, lines 21 to 34).\<close>

definition Run :: "env \<Rightarrow> nat \<Rightarrow> engine \<Rightarrow> (error + engine) option" where
  "Run env n s = Run_loop env n (s\<lparr>is_running := True\<rparr>)"

section \<open>Observations on traces\<close>

text \<open>What a step from \<open>s\<close> to \<open>s'\<close> added to the trace.\<close>

definition new_trace :: "engine \<Rightarrow> engine \<Rightarrow> obs list" where
  "new_trace s s' = drop (length (trace s)) (trace s')"

text \<open>The entries that the calls made by a callback can add to the trace.\<close>

fun cmd_obs :: "obs \<Rightarrow> bool" where
  "cmd_obs Obs_Quit = True"
| "cmd_obs (Obs_LoadLevel l) = True"
| "cmd_obs (Obs_LoadSprite sp) = True"
| "cmd_obs ob = False"

text \<open>
  The entries that dispatch and the collision pass can add to the trace: calls of
  listeners and sprite handlers and what those calls do. The entries of the main loop
  itself and of the platform are excluded.
\<close>

fun callback_obs :: "obs \<Rightarrow> bool" where
  "callback_obs Obs_GetTimestamp = False"
| "callback_obs (Obs_DrawSprites t) = False"
| "callback_obs (Obs_SDL_Delay ms) = False"
| "callback_obs Obs_SDL_RegisterEvents = False"
| "callback_obs (Obs_SDL_PushEvent e) = False"
| "callback_obs ob = True"

text \<open>The entries that \<^verbatim>\<open>EmitTimeEvent\<close> can add.\<close>

fun emit_obs :: "obs \<Rightarrow> bool" where
  "emit_obs Obs_SDL_RegisterEvents = True"
| "emit_obs (Obs_SDL_PushEvent e) = True"
| "emit_obs ob = False"

text \<open>The durations passed to \<^verbatim>\<open>SDL_Delay\<close>, in order.\<close>

fun delays :: "obs list \<Rightarrow> Uint32 list" where
  "delays [] = []"
| "delays (Obs_SDL_Delay ms # tr) = ms # delays tr"
| "delays (ob # tr) = delays tr"

text \<open>The listeners called through \<^verbatim>\<open>event_listeners\<close> and \<^verbatim>\<open>time_listeners\<close>, in order.\<close>

fun listener_calls :: "obs list \<Rightarrow> listener list" where
  "listener_calls [] = []"
| "listener_calls (Obs_listener l # tr) = l # listener_calls tr"
| "listener_calls (ob # tr) = listener_calls tr"

text \<open>The calls of the collision listener, in order.\<close>

fun collisions :: "obs list \<Rightarrow> (listener \<times> sprite \<times> sprite) list" where
  "collisions [] = []"
| "collisions (Obs_collision l a b # tr) = (l, a, b) # collisions tr"
| "collisions (ob # tr) = collisions tr"

text \<open>The events handed to sprites through \<^verbatim>\<open>Sprite::DelegateEvent\<close>, in order.\<close>

fun deliveries :: "obs list \<Rightarrow> (sprite \<times> SDL_Event) list" where
  "deliveries [] = []"
| "deliveries (Obs_Sprite_DelegateEvent sp e # tr) = (sp, e) # deliveries tr"
| "deliveries (ob # tr) = deliveries tr"

text \<open>How many times \<^verbatim>\<open>SDL_RegisterEvents\<close> has been called so far.\<close>

definition registrations :: "engine \<Rightarrow> nat" where
  "registrations s = count_list (trace s) Obs_SDL_RegisterEvents"

section \<open>Notions used in the statements\<close>

text \<open>
  What dispatching events and the collision pass may change: the flag (only by a call of
  \<^verbatim>\<open>Quit\<close>, which the trace shows), the heaps, the current level and collision
  listener, and the trace.
\<close>

definition dispatch_step :: "engine \<Rightarrow> engine \<Rightarrow> bool" where
  "dispatch_step s s' \<longleftrightarrow>
     fps s' = fps s \<and> frame_counter s' = frame_counter s \<and> time_elapsed s' = time_elapsed s \<and>
     levels s' = levels s \<and> time_listeners s' = time_listeners s \<and>
     event_listeners s' = event_listeners s \<and> time_event_type s' = time_event_type s \<and>
     queue s' = queue s \<and> SDL_userevents s' = SDL_userevents s \<and> ticks s' = ticks s \<and>
     (\<exists>tr. trace s' = trace s @ tr \<and> list_all callback_obs tr \<and>
           (is_running s' \<longleftrightarrow> is_running s \<and> Obs_Quit \<notin> set tr))"

text \<open>
  The firing rule in the words of the specification: with \<open>r\<close> frames per period, a
  listener fires at frame \<open>i\<close> iff \<open>i mod r = 0\<close> when \<open>r > 0\<close>, and at every frame
  otherwise.
\<close>

definition spec_fires :: "int \<Rightarrow> int \<Rightarrow> bool" where
  "spec_fires r i = (if r > 0 then i mod r = 0 else True)"

text \<open>The rule at a registered delay, for the values that a time event points to.\<close>

definition fires_at :: "engine \<Rightarrow> int \<Rightarrow> bool" where
  "fires_at s delay = spec_fires (period_frames (fps s) delay) (sint (frame_counter s))"

text \<open>
  The number of frames per period in the words of the specification,
  \<open>round((f / 1000) * d)\<close>: the nearest integer to the exact product.
\<close>

definition spec_period :: "int \<Rightarrow> int \<Rightarrow> int" where
  "spec_period f d = round_double (of_int f / 1000 * of_int d)"

text \<open>
  Two sprites overlap in state \<open>s\<close>: both exist and \<^verbatim>\<open>Contains\<close> holds of their
  boundaries.
\<close>

definition overlaps :: "env \<Rightarrow> engine \<Rightarrow> sprite \<Rightarrow> sprite \<Rightarrow> bool" where
  "overlaps env s a b =
     (case sprite_heap s a of
        None \<Rightarrow> False
      | Some ra \<Rightarrow> (case sprite_heap s b of None \<Rightarrow> False | Some rb \<Rightarrow> Contains env ra rb))"

text \<open>A call that leaves levels, sprites and the collision listener as they are.\<close>

fun quiet :: "cmd \<Rightarrow> bool" where
  "quiet Quit_call = True"
| "quiet c = False"

text \<open>What a collision pass with quiet listeners leaves unchanged.\<close>

definition quiet_step :: "engine \<Rightarrow> engine \<Rightarrow> bool" where
  "quiet_step s s' \<longleftrightarrow>
     level_heap s' = level_heap s \<and> sprite_heap s' = sprite_heap s \<and>
     current_level s' = current_level s \<and>
     current_collision_listener s' = current_collision_listener s"

text \<open>A call that changes the sequence of some level.\<close>

fun changes_level :: "cmd \<Rightarrow> bool" where
  "changes_level (AddSprite_call l sp) = True"
| "changes_level (RemoveSprite_call l sp) = True"
| "changes_level c = False"

section \<open>Concrete engines and applications\<close>

text \<open>
  The state after construction, at the start of the process: the constructor sets
  \<^verbatim>\<open>fps\<close> and \<^verbatim>\<open>frame_counter\<close>; the members it leaves uninitialised are taken
  as zero, null and empty.
\<close>

definition Engine_new :: "int \<Rightarrow> engine" where
  "Engine_new f =
     \<lparr>fps = f, frame_counter = 0, time_elapsed = 0, is_running = False, levels = [],
      current_level = None, current_collision_listener = 0, time_listeners = [],
      event_listeners = [], time_event_type = 0, level_heap = Map.empty,
      sprite_heap = Map.empty, queue = [], SDL_userevents = SDL_USEREVENT, ticks = 0,
      trace = []\<rparr>"

text \<open>An instance of the boundary test: two rectangles share a point of their interiors.\<close>

definition rect_overlap :: "SDL_Rect \<Rightarrow> SDL_Rect \<Rightarrow> bool" where
  "rect_overlap a b \<longleftrightarrow>
     rect_x a < rect_x b + rect_w b \<and> rect_x b < rect_x a + rect_w a \<and>
     rect_y a < rect_y b + rect_h b \<and> rect_y b < rect_y a + rect_h a"

text \<open>
  An application: the listener at address 7 calls \<^verbatim>\<open>Quit\<close>, every other callback
  does nothing; the clock advances 40 ms between readings.
\<close>

definition demo_env :: env where
  "demo_env =
     \<lparr>event_listener_code = (\<lambda>l s. if l = 7 then [Quit_call] else []),
      collision_listener_code = (\<lambda>l a b s. []),
      Sprite_DelegateEvent_code = (\<lambda>sp e s. []),
      Contains = rect_overlap,
      clock = (\<lambda>n. 40 * int n)\<rparr>"

definition demo_level :: level where
  "demo_level = \<lparr>sprites = [1, 2], is_loaded = True, modifications = 0\<rparr>"

text \<open>
  A running engine at 30 frames per second whose active level holds sprite 1 at (0, 0)
  and sprite 2 at (5, 5), both 10 by 10, with the collision listener at address 9.
\<close>

definition demo_engine :: engine where
  "demo_engine =
     SetCollisionListener 9
       (SetCurrentLevel 1
          ((Engine_new 30)\<lparr>is_running := True,
             level_heap := [1 \<mapsto> demo_level],
             sprite_heap := [1 \<mapsto> \<lparr>rect_x = 0, rect_y = 0, rect_w = 10, rect_h = 10\<rparr>,
                             2 \<mapsto> \<lparr>rect_x = 5, rect_y = 5, rect_w = 10, rect_h = 10\<rparr>]\<rparr>))"

definition quit_event :: SDL_Event where
  "quit_event = \<lparr>event_type = SDL_QUIT, key_keysym_sym = 0, user_code = 0,
                 user_data1 = Null_ptr, user_data2 = Null_ptr\<rparr>"

text \<open>An event of a type that \<^verbatim>\<open>DelegateEvent\<close> has no branch for (a window event).\<close>

definition window_event :: SDL_Event where
  "window_event = \<lparr>event_type = 0x200, key_keysym_sym = 0, user_code = 0,
                   user_data1 = Null_ptr, user_data2 = Null_ptr\<rparr>"



text \<open>An engine on a platform that has no user event numbers left.\<close>

definition exhausted_engine :: engine where
  "exhausted_engine = (Engine_new 30)\<lparr>SDL_userevents := SDL_LASTEVENT\<rparr>"

text \<open>
  An engine at frame 45 with three time listeners: 4 every 10 ms, 5 every 500 ms, 6 every
  1000 ms. At 30 frames per second these are periods of 0, 15 and 30 frames.
\<close>

definition timer_engine :: engine where
  "timer_engine =
     AddTimeListener 6 1000 (AddTimeListener 4 10 (AddTimeListener 5 500
       (demo_engine\<lparr>frame_counter := 45\<rparr>)))"

text \<open>
  An engine at 18 frames per second with listener 4 registered at 750 ms, where
  \<open>(18 / 1000) * 750\<close> is 13.5.
\<close>

definition tie_engine :: engine where
  "tie_engine = AddTimeListener 4 750 (demo_engine\<lparr>fps := 18\<rparr>)"

text \<open>
  An engine at 100000 frames per second with listener 4 registered at a delay of 100000000
  ms: ten thousand million frames, more than an \<^verbatim>\<open>int\<close> holds.
\<close>

definition overflow_engine :: engine where
  "overflow_engine = AddTimeListener 4 100000000 (demo_engine\<lparr>fps := 100000\<rparr>)"

text \<open>
  An application whose collision listener adds sprite 3 to level 1 unless the level holds
  it already.
\<close>

definition adder_env :: env where
  "adder_env =
     demo_env\<lparr>collision_listener_code :=
       (\<lambda>l a b s. case level_heap s 1 of
                     None \<Rightarrow> []
                   | Some lv \<Rightarrow> if 3 \<in> set (sprites lv) then [] else [AddSprite_call 1 3])\<rparr>"

text \<open>The concrete engine with a third sprite at (8, 8), 10 by 10, not yet in the level.\<close>

definition adder_engine :: engine where
  "adder_engine =
     demo_engine\<lparr>sprite_heap :=
       (sprite_heap demo_engine)(3 \<mapsto> \<lparr>rect_x = 8, rect_y = 8, rect_w = 10, rect_h = 10\<rparr>)\<rparr>"

text \<open>An application in which the handler of sprite 1 removes sprite 2 from level 1.\<close>

definition remover_env :: env where
  "remover_env =
     demo_env\<lparr>Sprite_DelegateEvent_code :=
       (\<lambda>sp e s. if sp = 1 then [RemoveSprite_call 1 2] else [])\<rparr>"

text \<open>An application in which the handler of sprite 1 adds sprite 3 to level 1.\<close>

definition sprite_adder_env :: env where
  "sprite_adder_env =
     demo_env\<lparr>Sprite_DelegateEvent_code :=
       (\<lambda>sp e s. if sp = 1 then [AddSprite_call 1 3] else [])\<rparr>"

text \<open>An application whose collision listener removes the second sprite of the pair.\<close>

definition collision_remover_env :: env where
  "collision_remover_env =
     demo_env\<lparr>collision_listener_code := (\<lambda>l a b s. [RemoveSprite_call 1 b])\<rparr>"

text \<open>An application none of whose callbacks changes levels, sprites or the listener slot.\<close>

definition quiet_app :: "env \<Rightarrow> bool" where
  "quiet_app env \<longleftrightarrow>
     (\<forall>l s. list_all quiet (event_listener_code env l s)) \<and>
     (\<forall>l a b s. list_all quiet (collision_listener_code env l a b s)) \<and>
     (\<forall>sp e s. list_all quiet (Sprite_DelegateEvent_code env sp e s))"

text \<open>The registered delays give numbers of frames that fit an \<^verbatim>\<open>int\<close>, at the rate \<open>f\<close>.\<close>

definition periods_fit :: "int \<Rightarrow> engine \<Rightarrow> bool" where
  "periods_fit f s \<longleftrightarrow> list_all (\<lambda>entry. int_range (period_frames f (fst entry))) (time_listeners s)"

text \<open>
  A state in which an iteration meets no undefined behaviour: a nonzero \<^verbatim>\<open>fps\<close>, a
  current level whose sprites all exist, no null listener in the registries, registered
  delays whose numbers of frames fit an \<^verbatim>\<open>int\<close>, and queued events whose payload
  pointers are set when they have the type of the time event (with numbers of frames
  that fit also at the value of the frame counter, should the first pointer lead there).
\<close>

definition ready :: "engine \<Rightarrow> bool" where
  "ready s \<longleftrightarrow>
     fps s \<noteq> 0 \<and>
     (\<exists>l lv. current_level s = Some l \<and> level_heap s l = Some lv \<and>
             list_all (\<lambda>sp. sprite_heap s sp \<noteq> None) (sprites lv)) \<and>
     list_all (\<lambda>entry. snd entry \<noteq> 0) (event_listeners s) \<and>
     list_all (\<lambda>entry. snd entry \<noteq> 0) (time_listeners s) \<and>
     periods_fit (fps s) s \<and>
     list_all (\<lambda>e. event_type e = time_event_type s \<longrightarrow>
                   user_data1 e \<noteq> Null_ptr \<and> user_data2 e \<noteq> Null_ptr \<and>
                   (user_data1 e = Frame_counter_ptr \<longrightarrow>
                      periods_fit (sint (frame_counter s)) s)) (queue s)"

text \<open>A step that is both a dispatch step and a quiet step.\<close>

definition calm_step :: "engine \<Rightarrow> engine \<Rightarrow> bool" where
  "calm_step s s' \<longleftrightarrow> dispatch_step s s' \<and> quiet_step s s'"

section \<open>Evaluation\<close>

text \<open>The equations that evaluate the engine on a concrete state.\<close>

lemmas demo_defs =
  demo_engine_def demo_env_def demo_level_def Engine_new_def rect_overlap_def quit_event_def
  SetCollisionListener_def SetCurrentLevel_def Window_LoadLevel_def record_obs_def

lemmas engine_defs =
  Run_iteration_def GetTimestamp_def SetTimeElapsed_def Window_DrawSprites_def SDL_Delay_def
  PollEvent.simps SDL_PollEvent_def DelegateEvent_def route_event_def HandleEvent_def HandleTime_def
  HandleEvent_entry_def HandleTime_entry_def deref_def PropagateEventToSprites_def
  range_for_vec_def Level_sprites_def Level_modifications_def double_to_int_def int_range_def Sprite_DelegateEvent_def DetectCollision_def
  current_level_GetSprites_def GetSprites_def collision_test_def Sprite_Contains_def
  call_collision_listener_def call_event_listener_def EmitTimeEvent_def SDL_RegisterEvents_def
  SDL_PushEvent_def time_event_def Quit_def
  SDL_QUIT_def SDL_KEYDOWN_def SDL_MOUSEMOTION_def SDL_MOUSEBUTTONDOWN_def SDL_MOUSEBUTTONUP_def
  SDL_MOUSEWHEEL_def SDL_USEREVENT_def SDL_LASTEVENT_def new_trace_def

section \<open>The double-precision arithmetic of the firing rule\<close>

text \<open>
  Rounding to \<^verbatim>\<open>double\<close> changes a positive number by at most one part in \<open>2 ^ 53\<close>.
\<close>

lemma log2_floor_bounds:
  assumes "0 < x"
  shows "2 powi (log2_floor x) \<le> x" and "x < 2 powi (log2_floor x + 1)"
proof -
  have "2 powi (log2_floor x) \<le> x \<and> x < 2 powi (log2_floor x + 1)"
  proof (cases "1 \<le> x")
    case True
    define n where "n = \<lfloor>x\<rfloor>"
    have n: "1 \<le> n" using True by (simp add: n_def)
    then have bl: "1 \<le> bitlen n" by (simp add: bitlen_alt_def)
    from bitlen_bounds[of n] n have b: "2 ^ nat (bitlen n - 1) \<le> n" "n < 2 ^ nat (bitlen n)"
      by simp_all
    have L: "log2_floor x = bitlen n - 1" using True by (simp add: log2_floor_def n_def)
    have "(2::rat) powi (bitlen n - 1) = of_int (2 ^ nat (bitlen n - 1))"
      using bl by (simp add: power_int_def)
    also have "\<dots> \<le> of_int n" using b(1) by (simp only: of_int_le_iff)
    also have "\<dots> \<le> x" by (simp add: n_def)
    finally have lo: "2 powi (log2_floor x) \<le> x" by (simp add: L)
    have "n + 1 \<le> 2 ^ nat (bitlen n)" using b(2) by simp
    then have "(of_int (n + 1) :: rat) \<le> of_int (2 ^ nat (bitlen n))" by (simp only: of_int_le_iff)
    moreover have "x < of_int (n + 1)" unfolding n_def by linarith
    moreover have "(2::rat) powi (bitlen n - 1 + 1) = of_int (2 ^ nat (bitlen n))"
      using bl by (simp add: power_int_def)
    ultimately have "x < 2 powi (log2_floor x + 1)" by (simp add: L)
    with lo show ?thesis by simp
  next
    case False
    define y where "y = 1 / x"
    define c where "c = \<lceil>y\<rceil>"
    have y: "1 < y" using False assms by (simp add: y_def)
    then have c: "2 \<le> c" unfolding c_def by (simp add: le_ceiling_iff)
    then have c1: "0 < c - 1" by simp
    define B where "B = bitlen (c - 1)"
    have B: "1 \<le> B" using c1 by (simp add: B_def bitlen_alt_def)
    from bitlen_bounds[OF c1] have b: "2 ^ nat (B - 1) \<le> c - 1" "c - 1 < 2 ^ nat B"
      by (simp_all add: B_def)
    have L: "log2_floor x = - B" using False by (simp add: log2_floor_def B_def c_def y_def)
    have "y \<le> of_int c" by (simp add: c_def)
    also have "c \<le> 2 ^ nat B" using b(2) by simp
    then have "(of_int c :: rat) \<le> of_int (2 ^ nat B)" by (simp only: of_int_le_iff)
    finally have yle: "y \<le> 2 ^ nat B" by simp
    have "(of_int (2 ^ nat (B - 1)) :: rat) \<le> of_int (c - 1)" using b(1) by (simp only: of_int_le_iff)
    moreover have "of_int (c - 1) < y" unfolding c_def by simp linarith
    ultimately have ygt: "2 ^ nat (B - 1) < y" by simp
    have x: "x = 1 / y" using assms by (simp add: y_def)
    have "(2::rat) powi (- B) = 1 / 2 ^ nat B" using B by (simp add: power_int_def field_simps)
    also have "\<dots> \<le> 1 / y" using yle y by (simp add: frac_le)
    finally have "2 powi (- B) \<le> x" by (simp only: x)
    then have lo: "2 powi (log2_floor x) \<le> x" by (simp only: L)
    have "(2::rat) powi (- B + 1) = 1 / 2 ^ nat (B - 1)"
      using B by (simp add: power_int_def field_simps nat_diff_distrib)
    moreover have "1 / y < 1 / 2 ^ nat (B - 1)" using ygt by (simp add: frac_less2)
    ultimately have "x < 2 powi (- B + 1)" by (simp only: x)
    then have "x < 2 powi (log2_floor x + 1)" by (simp only: L)
    with lo show ?thesis by simp
  qed
  then show "2 powi (log2_floor x) \<le> x" and "x < 2 powi (log2_floor x + 1)" by simp_all
qed

lemma round_ties_even_error: "\<bar>of_int (round_ties_even y) - y\<bar> \<le> 1 / 2"
proof -
  have "of_int \<lfloor>y\<rfloor> \<le> y" "y < of_int \<lfloor>y\<rfloor> + 1" by linarith+
  then show ?thesis by (auto simp: round_ties_even_def Let_def)
qed

lemma to_double_error:
  assumes "0 < x"
  shows "\<bar>to_double x - x\<bar> \<le> x / 2 ^ 53"
proof -
  define e where "e = log2_floor x - 52"
  define p where "p = (2::rat) powi e"
  have p: "0 < p" by (simp add: p_def)
  have "2 powi (log2_floor x) = p * 2 ^ 52"
    by (simp add: p_def e_def power_int_diff)
  with log2_floor_bounds(1)[OF assms] have px: "p * 2 ^ 52 \<le> x" by simp
  have td: "to_double x = of_int (round_ties_even (x / p)) * p"
    using assms by (simp add: to_double_def e_def p_def Let_def)
  have "to_double x - x = (of_int (round_ties_even (x / p)) - x / p) * p"
    using p by (simp add: td field_simps)
  then have "\<bar>to_double x - x\<bar> = \<bar>of_int (round_ties_even (x / p)) - x / p\<bar> * p"
    using p by (simp add: abs_mult abs_of_pos)
  also have "\<dots> \<le> 1 / 2 * p" using round_ties_even_error[of "x / p"] p
    by (intro mult_right_mono) simp_all
  also have "\<dots> \<le> x / 2 ^ 53" using px by simp
  finally show ?thesis .
qed

lemma to_double_bounds:
  assumes "0 \<le> x"
  shows "x * (1 - 1 / 2 ^ 53) \<le> to_double x" and "to_double x \<le> x * (1 + 1 / 2 ^ 53)"
proof -
  have "x * (1 - 1 / 2 ^ 53) \<le> to_double x \<and> to_double x \<le> x * (1 + 1 / 2 ^ 53)"
  proof (cases "x = 0")
    case True
    then show ?thesis by (simp add: to_double_def)
  next
    case False
    with assms have "0 < x" by simp
    have e: "x * (1 - 1 / 2 ^ 53) = x - x / 2 ^ 53" "x * (1 + 1 / 2 ^ 53) = x + x / 2 ^ 53"
      by (simp_all add: algebra_simps)
    from to_double_error[OF \<open>0 < x\<close>] show ?thesis unfolding e by linarith
  qed
  then show "x * (1 - 1 / 2 ^ 53) \<le> to_double x" and "to_double x \<le> x * (1 + 1 / 2 ^ 53)"
    by simp_all
qed

lemma to_double_nonneg: "0 \<le> x \<Longrightarrow> 0 \<le> to_double x"
proof -
  assume x: "0 \<le> x"
  have "0 \<le> x * (1 - 1 / 2 ^ 53)" using x by (intro mult_nonneg_nonneg) simp_all
  with to_double_bounds(1)[OF x] show ?thesis by linarith
qed

lemma round_double_unique:
  assumes "of_int k - 1 / 2 \<le> x" and "x < of_int k + 1 / 2" and "0 \<le> x"
  shows "round_double x = k"
proof -
  have "\<lfloor>x + 1 / 2\<rfloor> = k" using assms(1,2) by (intro floor_unique) linarith+
  with assms(3) show ?thesis by (simp add: round_double_def)
qed

lemma spec_period_eq:
  assumes "0 \<le> f * d"
  shows "spec_period f d = (f * d + 500) div 1000"
proof -
  define k where "k = (f * d + 500) div 1000"
  define r where "r = (f * d + 500) mod 1000"
  have r: "0 \<le> r" "r < 1000" by (simp_all add: r_def)
  have "f * d + 500 = 1000 * k + r" by (simp add: k_def r_def)
  then have eq: "(of_int (f * d + 500) :: rat) = of_int (1000 * k + r)" by simp
  define xx where "xx = (of_int f :: rat) / 1000 * of_int d"
  have x: "xx = of_int k + of_int r / 1000 - 1 / 2"
    using eq by (simp add: field_simps xx_def)
  have r': "(0::rat) \<le> of_int r" "(of_int r :: rat) < 1000" using r by simp_all
  have nn: "0 \<le> xx"
  proof -
    have "(0::rat) \<le> of_int (f * d)" using assms by (simp only: of_int_0_le_iff)
    then show ?thesis by (simp add: xx_def)
  qed
  have "of_int k - 1 / 2 \<le> xx" "xx < of_int k + 1 / 2" using r' unfolding x by linarith+
  then have "round_double xx = k" using nn by (rule round_double_unique)
  then show ?thesis by (simp add: spec_period_def k_def xx_def)
qed

lemma double_expression_bounds:
  assumes f: "0 \<le> f" and d: "0 \<le> d"
  defines "X \<equiv> (of_int (f * d) :: rat) / 1000"
  defines "b \<equiv> double_mul (double_div (to_double (of_int f)) 1000) (to_double (of_int d))"
  shows "X * (1 - 5 / 2 ^ 53) \<le> b" and "b \<le> X * (1 + 5 / 2 ^ 53)" and "0 \<le> b"
proof -
  define u where "u = (1::rat) / 2 ^ 53"
  define lo where "lo = 1 - u"
  define hi where "hi = 1 + u"
  have lo: "0 \<le> lo" and hi: "0 \<le> hi" by (simp_all add: lo_def hi_def u_def)
  define F where "F = (of_int f :: rat)"
  define D where "D = (of_int d :: rat)"
  have F: "0 \<le> F" and D: "0 \<le> D" using f d by (simp_all add: F_def D_def)
  define f1 where "f1 = to_double F"
  define a where "a = to_double (f1 / 1000)"
  define d1 where "d1 = to_double D"
  have b: "b = to_double (a * d1)"
    by (simp add: b_def a_def f1_def d1_def double_mul_def double_div_def F_def D_def)
  have f1: "F * lo \<le> f1" "f1 \<le> F * hi" "0 \<le> f1"
    using to_double_bounds[OF F] to_double_nonneg[OF F] by (simp_all add: f1_def lo_def hi_def u_def)
  have q: "0 \<le> f1 / 1000" using f1(3) by simp
  have a: "f1 / 1000 * lo \<le> a" "a \<le> f1 / 1000 * hi" "0 \<le> a"
    using to_double_bounds[OF q] to_double_nonneg[OF q] by (simp_all add: a_def lo_def hi_def u_def)
  have d1: "D * lo \<le> d1" "d1 \<le> D * hi" "0 \<le> d1"
    using to_double_bounds[OF D] to_double_nonneg[OF D] by (simp_all add: d1_def lo_def hi_def u_def)
  have ad: "0 \<le> a * d1" using a(3) d1(3) by simp
  have bb: "a * d1 * lo \<le> b" "b \<le> a * d1 * hi" "0 \<le> b"
    using to_double_bounds[OF ad] to_double_nonneg[OF ad] by (simp_all add: b lo_def hi_def u_def)
  have a_lo: "F / 1000 * lo * lo \<le> a"
  proof -
    have "F * lo / 1000 * lo \<le> f1 / 1000 * lo" using f1(1) lo by (intro mult_right_mono) simp_all
    with a(1) show ?thesis by simp
  qed
  have a_hi: "a \<le> F / 1000 * hi * hi"
  proof -
    have "f1 / 1000 * hi \<le> F * hi / 1000 * hi" using f1(2) hi by (intro mult_right_mono) simp_all
    with a(2) show ?thesis by simp
  qed
  have ad_lo: "(F / 1000 * lo * lo) * (D * lo) \<le> a * d1"
    using a_lo d1(1) a(3) F D lo by (intro mult_mono) simp_all
  have ad_hi: "a * d1 \<le> (F / 1000 * hi * hi) * (D * hi)"
    using a_hi d1(2) a(3) d1(3) F D hi by (intro mult_mono) simp_all
  have X: "X = F / 1000 * D" by (simp add: X_def F_def D_def)
  have Xn: "0 \<le> X" using F D by (simp add: X)
  have "X * (lo * lo * lo * lo) = (F / 1000 * lo * lo) * (D * lo) * lo" by (simp add: X)
  also have "\<dots> \<le> a * d1 * lo" using ad_lo lo by (intro mult_right_mono)
  also have "\<dots> \<le> b" by (rule bb(1))
  finally have low: "X * (lo * lo * lo * lo) \<le> b" .
  have "b \<le> a * d1 * hi" by (rule bb(2))
  also have "\<dots> \<le> (F / 1000 * hi * hi) * (D * hi) * hi" using ad_hi hi by (intro mult_right_mono)
  also have "\<dots> = X * (hi * hi * hi * hi)" by (simp add: X)
  finally have high: "b \<le> X * (hi * hi * hi * hi)" .
  have c1: "1 - 5 / 2 ^ 53 \<le> lo * lo * lo * lo" by (simp add: lo_def u_def)
  have c2: "hi * hi * hi * hi \<le> 1 + 5 / 2 ^ 53" by (simp add: hi_def u_def)
  have "X * (1 - 5 / 2 ^ 53) \<le> X * (lo * lo * lo * lo)" using c1 Xn by (rule mult_left_mono)
  with low show "X * (1 - 5 / 2 ^ 53) \<le> b" by linarith
  have "X * (hi * hi * hi * hi) \<le> X * (1 + 5 / 2 ^ 53)" using c2 Xn by (rule mult_left_mono)
  with high show "b \<le> X * (1 + 5 / 2 ^ 53)" by linarith
  show "0 \<le> b" by (rule bb(3))
qed

lemma period_frames_near:
  assumes f: "0 \<le> f" and d: "0 \<le> d" and small: "f * d < 1000 * 2 ^ 31"
  defines "X \<equiv> (of_int (f * d) :: rat) / 1000"
  defines "b \<equiv> double_mul (double_div (to_double (of_int f)) 1000) (to_double (of_int d))"
  shows "X - 1 / 2000 < b" and "b < X + 1 / 2000" and "0 \<le> b"
proof -
  have Xn: "0 \<le> X" using f d by (simp add: X_def)
  have "(of_int (f * d) :: rat) < of_int (1000 * 2 ^ 31)" using small by (simp only: of_int_less_iff)
  then have Xs: "X < 2 ^ 31" by (simp add: X_def)
  have e: "X * (5 / 2 ^ 53) < 1 / 2000"
  proof -
    have "X * (5 / 2 ^ 53) \<le> 2 ^ 31 * (5 / 2 ^ 53)" using Xs by (intro mult_right_mono) simp_all
    also have "\<dots> < 1 / 2000" by simp
    finally show ?thesis .
  qed
  have s: "X * (1 - 5 / 2 ^ 53) = X - X * (5 / 2 ^ 53)" "X * (1 + 5 / 2 ^ 53) = X + X * (5 / 2 ^ 53)"
    by (simp_all add: algebra_simps)
  from double_expression_bounds[OF f d] have
    "X * (1 - 5 / 2 ^ 53) \<le> b" "b \<le> X * (1 + 5 / 2 ^ 53)" "0 \<le> b"
    by (simp_all add: X_def b_def)
  with e show "X - 1 / 2000 < b" and "b < X + 1 / 2000" and "0 \<le> b"
    unfolding s by linarith+
qed

lemma period_frames_exact:
  assumes f: "0 \<le> f" and d: "0 \<le> d" and small: "f * d < 1000 * 2 ^ 31"
  shows "f * d mod 1000 \<noteq> 500 \<Longrightarrow> period_frames f d = (f * d + 500) div 1000"
    and "period_frames f d = f * d div 1000 \<or> period_frames f d = f * d div 1000 + 1"
proof -
  define k where "k = f * d div 1000"
  define r where "r = f * d mod 1000"
  define X where "X = (of_int (f * d) :: rat) / 1000"
  define b where "b = double_mul (double_div (to_double (of_int f)) 1000) (to_double (of_int d))"
  have r: "0 \<le> r" "r < 1000" by (simp_all add: r_def)
  have "f * d = 1000 * k + r" by (simp add: k_def r_def)
  then have "(of_int (f * d) :: rat) = of_int (1000 * k + r)" by simp
  then have X: "X = of_int k + of_int r / 1000" by (simp add: X_def field_simps)
  from period_frames_near[OF f d small] have near: "X - 1 / 2000 < b" "b < X + 1 / 2000" "0 \<le> b"
    by (simp_all add: X_def b_def)
  have pf: "period_frames f d = round_double b" by (simp add: period_frames_def b_def)
  have down: "period_frames f d = k" if "r \<le> 499"
  proof -
    from that have "(of_int r :: rat) \<le> of_int 499" by (simp only: of_int_le_iff)
    moreover have "(0::rat) \<le> of_int r" using r(1) by simp
    ultimately have "round_double b = k" using near X by (intro round_double_unique) simp_all
    then show ?thesis by (simp add: pf)
  qed
  have up: "period_frames f d = k + 1" if "501 \<le> r"
  proof -
    from that have "(of_int 501 :: rat) \<le> of_int r" by (simp only: of_int_le_iff)
    moreover have "(of_int r :: rat) < of_int 1000" using r(2) by (simp only: of_int_less_iff)
    ultimately have "round_double b = k + 1" using near X by (intro round_double_unique) simp_all
    then show ?thesis by (simp add: pf)
  qed
  have tie: "period_frames f d = k \<or> period_frames f d = k + 1" if "r = 500"
  proof (cases "b < of_int k + 1 / 2")
    case True
    have "round_double b = k" using near X that True by (intro round_double_unique) simp_all
    then show ?thesis by (simp add: pf)
  next
    case False
    have "round_double b = k + 1" using near X that False by (intro round_double_unique) simp_all
    then show ?thesis by (simp add: pf)
  qed
  have e: "(f * d + 500) div 1000 = (if r < 500 then k else k + 1)"
  proof -
    have "f * d + 500 = 1000 * k + (r + 500)" by (simp add: k_def r_def)
    then show ?thesis using r by (auto simp: div_pos_pos_trivial)
  qed
  show "period_frames f d = (f * d + 500) div 1000" if "f * d mod 1000 \<noteq> 500"
  proof (cases "r < 500")
    case True
    with down e show ?thesis by simp
  next
    case False
    with that have "501 \<le> r" by (simp add: r_def)
    with up e False show ?thesis by simp
  qed
  have "r \<le> 499 \<or> r = 500 \<or> 501 \<le> r" by linarith
  with down up tie show "period_frames f d = f * d div 1000 \<or> period_frames f d = f * d div 1000 + 1"
    unfolding k_def by blast
qed

text \<open>
  Values of the rounding: the \<^verbatim>\<open>double\<close> nearest to one tenth, the quotient
  \<^verbatim>\<open>18 / 1000.0\<close>, which lies below 0.018, and its product with 750, which lies below
  13.5.
\<close>

lemma to_double_values:
  "to_double (1 / 10) = 3602879701896397 / 2 ^ 55"
  "double_div (to_double 18) 1000 = 5188146770730811 / 2 ^ 58"
  "double_mul (double_div (to_double 18) 1000) (to_double 750) = 7599824371187711 / 2 ^ 49"
  "to_double 2147483647 = 2147483647"
  by code_simp+

text \<open>The values of the expression that the concrete engines below meet.\<close>

lemma period_frames_values:
  "period_frames 30 10 = 0" "period_frames 30 500 = 15" "period_frames 30 1000 = 30"
  "period_frames 18 750 = 13" "period_frames 60 1000 = 60"
  "period_frames 100000 100000000 = 10000000000"
  by code_simp+

lemma spec_period_values: "spec_period 18 750 = 14" "spec_period 60 1000 = 60"
  by (simp_all add: spec_period_eq)

lemma dispatch_step_refl: "dispatch_step s s"
  by (simp add: dispatch_step_def)

lemma dispatch_step_trans:
  assumes "dispatch_step a b" "dispatch_step b c"
  shows "dispatch_step a c"
proof -
  from assms(1) obtain t1 where t1: "trace b = trace a @ t1" "list_all callback_obs t1"
    "is_running b \<longleftrightarrow> is_running a \<and> Obs_Quit \<notin> set t1"
    unfolding dispatch_step_def by blast
  from assms(2) obtain t2 where t2: "trace c = trace b @ t2" "list_all callback_obs t2"
    "is_running c \<longleftrightarrow> is_running b \<and> Obs_Quit \<notin> set t2"
    unfolding dispatch_step_def by blast
  have "trace c = trace a @ (t1 @ t2) \<and> list_all callback_obs (t1 @ t2) \<and>
        (is_running c \<longleftrightarrow> is_running a \<and> Obs_Quit \<notin> set (t1 @ t2))"
    using t1 t2 by auto
  then have "\<exists>tr. trace c = trace a @ tr \<and> list_all callback_obs tr \<and>
        (is_running c \<longleftrightarrow> is_running a \<and> Obs_Quit \<notin> set tr)" by blast
  with assms show ?thesis unfolding dispatch_step_def by simp
qed

lemma dispatch_step_record:
  "callback_obs ob \<Longrightarrow> ob \<noteq> Obs_Quit \<Longrightarrow> dispatch_step s (record_obs ob s)"
  by (simp add: dispatch_step_def record_obs_def)

lemma dispatch_step_Quit: "dispatch_step s (Quit s)"
  by (simp add: dispatch_step_def record_obs_def Quit_def)

lemma dispatch_step_heap:
  "dispatch_step s (s\<lparr>level_heap := lh\<rparr>)" "dispatch_step s (s\<lparr>sprite_heap := sh\<rparr>)"
  "dispatch_step s (s\<lparr>current_level := cl\<rparr>)" "dispatch_step s (s\<lparr>current_collision_listener := li\<rparr>)"
  by (simp_all add: dispatch_step_def)

lemma for_each_rel:
  assumes refl: "\<And>s. R s s"
    and trans: "\<And>a b c. R a b \<Longrightarrow> R b c \<Longrightarrow> R a c"
    and step: "\<And>x a b. x \<in> set xs \<Longrightarrow> body x a = Inr b \<Longrightarrow> R a b"
    and run: "for_each xs body s = Inr s'"
  shows "R s s'"
  using run step
proof (induction xs arbitrary: s)
  case Nil
  then show ?case by (simp add: refl)
next
  case (Cons x xs)
  from Cons.prems(1) obtain m where m: "body x s = Inr m" "for_each xs body m = Inr s'"
    by (auto split: sum.splits)
  have "R s m" by (rule Cons.prems(2)[OF _ m(1)]) simp
  moreover have "R m s'"
  proof (rule Cons.IH[OF m(2)])
    fix y a b
    assume "y \<in> set xs" "body y a = Inr b"
    then show "R a b" using Cons.prems(2)[of y a b] by simp
  qed
  ultimately show ?case by (rule trans)
qed

lemma range_for_rel:
  assumes refl: "\<And>s. R s s"
    and trans: "\<And>a b c. R a b \<Longrightarrow> R b c \<Longrightarrow> R a c"
    and step: "\<And>x a b. body x a = Inr b \<Longrightarrow> R a b"
    and run: "range_for n i vec cnt body s = Inr s'"
  shows "R s s'"
  using run
proof (induction n arbitrary: i s)
  case 0
  then show ?case by (simp add: refl)
next
  case (Suc n)
  then obtain v m where m: "body (v ! i) s = Inr m" "range_for n (Suc i) vec cnt body m = Inr s'"
    by (auto split: sum.splits if_splits)
  from step[OF m(1)] Suc.IH[OF m(2)] show ?case by (rule trans)
qed

lemma range_for_vec_rel:
  fixes vec :: "engine \<Rightarrow> error + 'a list"
  assumes refl: "\<And>s. R s s"
    and trans: "\<And>a b c. R a b \<Longrightarrow> R b c \<Longrightarrow> R a c"
    and step: "\<And>x a b. body x a = Inr b \<Longrightarrow> R a b"
    and run: "range_for_vec vec cnt body s = Inr s'"
  shows "R s s'"
proof -
  from run obtain v :: "'a list" where "range_for (length v) 0 vec cnt body s = Inr s'"
    by (cases "vec s") (auto simp: range_for_vec_def)
  then show ?thesis
  proof (rule range_for_rel[where R = R, rotated 3])
    show "\<And>s. R s s" by (rule refl)
    show "\<And>a b c. R a b \<Longrightarrow> R b c \<Longrightarrow> R a c" by (rule trans)
    show "\<And>x a b. body x a = Inr b \<Longrightarrow> R a b" by (rule step)
  qed
qed

lemma for_each_dispatch_step:
  assumes "\<And>x a b. x \<in> set xs \<Longrightarrow> body x a = Inr b \<Longrightarrow> dispatch_step a b"
    and "for_each xs body s = Inr s'"
  shows "dispatch_step s s'"
proof (rule for_each_rel[where R = dispatch_step, OF _ _ _ assms(2)])
  show "\<And>s. dispatch_step s s" by (rule dispatch_step_refl)
  show "\<And>a b c. dispatch_step a b \<Longrightarrow> dispatch_step b c \<Longrightarrow> dispatch_step a c"
    by (rule dispatch_step_trans)
  show "\<And>x a b. x \<in> set xs \<Longrightarrow> body x a = Inr b \<Longrightarrow> dispatch_step a b"
    by (rule assms(1))
qed

lemma range_for_vec_dispatch_step:
  assumes "\<And>x a b. body x a = Inr b \<Longrightarrow> dispatch_step a b"
    and "range_for_vec vec cnt body s = Inr s'"
  shows "dispatch_step s s'"
proof (rule range_for_vec_rel[where R = dispatch_step, OF _ _ _ assms(2)])
  show "\<And>s. dispatch_step s s" by (rule dispatch_step_refl)
  show "\<And>a b c. dispatch_step a b \<Longrightarrow> dispatch_step b c \<Longrightarrow> dispatch_step a c"
    by (rule dispatch_step_trans)
  show "\<And>x a b. body x a = Inr b \<Longrightarrow> dispatch_step a b"
    by (rule assms(1))
qed

lemma exec_cmd_dispatch_step: "exec_cmd c s = Inr s' \<Longrightarrow> dispatch_step s s'"
proof (cases c)
  case Quit_call
  then show "exec_cmd c s = Inr s' \<Longrightarrow> dispatch_step s s'" by (auto simp: dispatch_step_Quit)
next
  case (SetCollisionListener_call l)
  then show "exec_cmd c s = Inr s' \<Longrightarrow> dispatch_step s s'"
    by (auto simp: SetCollisionListener_def dispatch_step_heap)
next
  case (SetCurrentLevel_call l)
  then show "exec_cmd c s = Inr s' \<Longrightarrow> dispatch_step s s'"
    by (auto simp: SetCurrentLevel_def Window_LoadLevel_def dispatch_step_def record_obs_def)
next
  case (AddSprite_call l sp)
  then show "exec_cmd c s = Inr s' \<Longrightarrow> dispatch_step s s'"
    by (auto simp: AddSprite_def Window_LoadSprite_def dispatch_step_def record_obs_def Let_def
          split: option.splits if_splits)
next
  case (RemoveSprite_call l sp)
  then show "exec_cmd c s = Inr s' \<Longrightarrow> dispatch_step s s'"
    by (auto simp: RemoveSprite_def delete_sprite_def dispatch_step_def Let_def
          split: option.splits if_splits sum.splits)
next
  case (SetX_call sp v)
  then show "exec_cmd c s = Inr s' \<Longrightarrow> dispatch_step s s'"
    by (auto simp: Sprite_SetX_def dispatch_step_def split: option.splits)
next
  case (SetY_call sp v)
  then show "exec_cmd c s = Inr s' \<Longrightarrow> dispatch_step s s'"
    by (auto simp: Sprite_SetY_def dispatch_step_def split: option.splits)
qed

lemma exec_cmds_dispatch_step: "exec_cmds cs s = Inr s' \<Longrightarrow> dispatch_step s s'"
proof (induction cs arbitrary: s)
  case Nil
  then show ?case by (simp add: dispatch_step_refl)
next
  case (Cons c cs)
  then obtain m where m: "exec_cmd c s = Inr m" "exec_cmds cs m = Inr s'"
    by (auto split: sum.splits)
  from exec_cmd_dispatch_step[OF m(1)] Cons.IH[OF m(2)] show ?case by (rule dispatch_step_trans)
qed

lemma call_event_listener_dispatch_step:
  assumes "call_event_listener env l s = Inr s'"
  shows "dispatch_step s s'"
proof -
  from assms have r: "exec_cmds (event_listener_code env l (record_obs (Obs_listener l) s))
      (record_obs (Obs_listener l) s) = Inr s'"
    by (auto simp: call_event_listener_def Let_def split: if_splits)
  have "dispatch_step s (record_obs (Obs_listener l) s)" by (simp add: dispatch_step_record)
  from this exec_cmds_dispatch_step[OF r] show ?thesis by (rule dispatch_step_trans)
qed

lemma call_collision_listener_dispatch_step:
  assumes "call_collision_listener env l a b s = Inr s'"
  shows "dispatch_step s s'"
proof -
  from assms have r: "exec_cmds (collision_listener_code env l a b (record_obs (Obs_collision l a b) s))
      (record_obs (Obs_collision l a b) s) = Inr s'"
    by (auto simp: call_collision_listener_def Let_def)
  have "dispatch_step s (record_obs (Obs_collision l a b) s)" by (simp add: dispatch_step_record)
  from this exec_cmds_dispatch_step[OF r] show ?thesis by (rule dispatch_step_trans)
qed

lemma Sprite_DelegateEvent_dispatch_step:
  assumes "Sprite_DelegateEvent env sp e s = Inr s'"
  shows "dispatch_step s s'"
proof -
  from assms have r: "exec_cmds (Sprite_DelegateEvent_code env sp e (record_obs (Obs_Sprite_DelegateEvent sp e) s))
      (record_obs (Obs_Sprite_DelegateEvent sp e) s) = Inr s'"
    by (auto simp: Sprite_DelegateEvent_def Let_def split: if_splits)
  have "dispatch_step s (record_obs (Obs_Sprite_DelegateEvent sp e) s)"
    by (simp add: dispatch_step_record)
  from this exec_cmds_dispatch_step[OF r] show ?thesis by (rule dispatch_step_trans)
qed

lemma collision_test_dispatch_step:
  "collision_test env a b s = Inr s' \<Longrightarrow> dispatch_step s s'"
  by (auto simp: collision_test_def dispatch_step_refl
        split: if_splits sum.splits dest: call_collision_listener_dispatch_step)

lemma DetectCollision_dispatch_step:
  assumes "DetectCollision env s = Inr s'"
  shows "dispatch_step s s'"
proof -
  from assms obtain outer where run: "range_for_vec (\<lambda>_. Inr outer) (\<lambda>_. 0)
            (\<lambda>sprite s1.
               case current_level_GetSprites s1 of
                 Inl e \<Rightarrow> Inl e
               | Inr inner \<Rightarrow>
                   range_for_vec (\<lambda>_. Inr inner) (\<lambda>_. 0)
                     (\<lambda>other_sprite. collision_test env sprite other_sprite) s1)
            s = Inr s'"
    by (auto simp: DetectCollision_def split: sum.splits)
  show ?thesis
  proof (rule range_for_vec_dispatch_step[OF _ run])
    fix x a b
    assume "(case current_level_GetSprites a of Inl e \<Rightarrow> Inl e
             | Inr inner \<Rightarrow> range_for_vec (\<lambda>_. Inr inner) (\<lambda>_. 0) (collision_test env x) a) = Inr b"
    then obtain inner where i: "range_for_vec (\<lambda>_. Inr inner) (\<lambda>_. 0) (collision_test env x) a = Inr b"
      by (auto split: sum.splits)
    show "dispatch_step a b"
      by (rule range_for_vec_dispatch_step[OF _ i]) (rule collision_test_dispatch_step)
  qed
qed

lemma HandleEvent_dispatch_step:
  assumes "HandleEvent env e m s = Inr s'"
  shows "dispatch_step s s'"
proof -
  from assms have run: "for_each (event_listeners s) (HandleEvent_entry env e m) s = Inr s'"
    by (simp add: HandleEvent_def)
  show ?thesis
    by (rule for_each_dispatch_step[OF _ run])
       (auto simp: HandleEvent_entry_def dispatch_step_refl split: if_splits
          dest: call_event_listener_dispatch_step)
qed

lemma HandleTime_entry_dispatch_step:
  "HandleTime_entry env e x a = Inr b \<Longrightarrow> dispatch_step a b"
  by (auto simp: HandleTime_entry_def Let_def dispatch_step_refl split: if_splits sum.splits
        dest: call_event_listener_dispatch_step)

lemma HandleTime_dispatch_step:
  assumes "HandleTime env e s = Inr s'"
  shows "dispatch_step s s'"
proof -
  from assms have run: "for_each (time_listeners s) (HandleTime_entry env e) s = Inr s'"
    by (simp add: HandleTime_def)
  show ?thesis
    by (rule for_each_dispatch_step[OF _ run]) (rule HandleTime_entry_dispatch_step)
qed

lemma route_event_dispatch_step:
  "route_event env e s = Inr s' \<Longrightarrow> dispatch_step s s'"
  by (auto simp: route_event_def dispatch_step_refl dispatch_step_Quit split: if_splits
        dest: HandleEvent_dispatch_step HandleTime_dispatch_step)

lemma PropagateEventToSprites_dispatch_step:
  assumes "PropagateEventToSprites env l e s = Inr s'"
  shows "dispatch_step s s'"
  by (rule range_for_vec_dispatch_step[OF _ assms[unfolded PropagateEventToSprites_def]])
     (rule Sprite_DelegateEvent_dispatch_step)

lemma DelegateEvent_dispatch_step:
  assumes "DelegateEvent env e s = Inr s'"
  shows "dispatch_step s s'"
proof -
  from assms obtain s1 l where r: "route_event env e s = Inr s1"
    "PropagateEventToSprites env l e s1 = Inr s'"
    by (auto simp: DelegateEvent_def split: sum.splits option.splits)
  from route_event_dispatch_step[OF r(1)] PropagateEventToSprites_dispatch_step[OF r(2)]
  show ?thesis by (rule dispatch_step_trans)
qed

lemma dispatch_step_queue:
  "dispatch_step a b \<Longrightarrow> dispatch_step (a\<lparr>queue := q\<rparr>) (b\<lparr>queue := q\<rparr>)"
  by (simp add: dispatch_step_def)

lemma PollEvent_dispatch_step:
  "PollEvent env s = Inr s' \<Longrightarrow> dispatch_step (s\<lparr>queue := []\<rparr>) s'"
proof (induction env s rule: PollEvent.induct)
  case (1 env s)
  show ?case
  proof (cases "queue s")
    case Nil
    then have "s' = s" using "1.prems" by (simp add: PollEvent.simps SDL_PollEvent_def)
    moreover have "s\<lparr>queue := []\<rparr> = s" using Nil by simp
    ultimately show ?thesis by (simp add: dispatch_step_refl)
  next
    case (Cons e q)
    then have p: "SDL_PollEvent s = Some (e, s\<lparr>queue := q\<rparr>)" by (simp add: SDL_PollEvent_def)
    with "1.prems" obtain m where m: "DelegateEvent env e (s\<lparr>queue := q\<rparr>) = Inr m"
      "PollEvent env m = Inr s'"
      by (subst (asm) PollEvent.simps) (auto split: sum.splits)
    have "dispatch_step (s\<lparr>queue := q\<rparr>) m" by (rule DelegateEvent_dispatch_step[OF m(1)])
    then have "dispatch_step (s\<lparr>queue := q, queue := []\<rparr>) (m\<lparr>queue := []\<rparr>)"
      by (rule dispatch_step_queue)
    then have "dispatch_step (s\<lparr>queue := []\<rparr>) (m\<lparr>queue := []\<rparr>)" by simp
    moreover have "dispatch_step (m\<lparr>queue := []\<rparr>) s'"
      by (rule "1.IH"[OF p refl m(1) m(2)])
    ultimately show ?thesis by (rule dispatch_step_trans)
  qed
qed

lemma dispatch_step_new_trace:
  assumes "dispatch_step s s'"
  shows "trace s' = trace s @ new_trace s s'" "list_all callback_obs (new_trace s s')"
    "is_running s' \<longleftrightarrow> is_running s \<and> Obs_Quit \<notin> set (new_trace s s')"
  using assms by (auto simp: dispatch_step_def new_trace_def)

lemma EmitTimeEvent_fields:
  "fps (EmitTimeEvent s) = fps s" "frame_counter (EmitTimeEvent s) = frame_counter s"
  "time_elapsed (EmitTimeEvent s) = time_elapsed s" "is_running (EmitTimeEvent s) = is_running s"
  "ticks (EmitTimeEvent s) = ticks s" "level_heap (EmitTimeEvent s) = level_heap s"
  "sprite_heap (EmitTimeEvent s) = sprite_heap s" "current_level (EmitTimeEvent s) = current_level s"
  "time_listeners (EmitTimeEvent s) = time_listeners s"
  "event_listeners (EmitTimeEvent s) = event_listeners s"
  "current_collision_listener (EmitTimeEvent s) = current_collision_listener s"
  "levels (EmitTimeEvent s) = levels s"
  by (simp_all add: EmitTimeEvent_def SDL_RegisterEvents_def SDL_PushEvent_def record_obs_def Let_def)

lemma EmitTimeEvent_trace:
  "trace (EmitTimeEvent s) = trace s @ new_trace s (EmitTimeEvent s)"
  "list_all emit_obs (new_trace s (EmitTimeEvent s))"
  by (simp_all add: EmitTimeEvent_def SDL_RegisterEvents_def SDL_PushEvent_def record_obs_def
        Let_def new_trace_def)

lemma Run_iteration_stages:
  assumes "Run_iteration env s = Inr s'"
  shows "\<exists>s1 s2 s4 s5 s6.
     s1 = snd (GetTimestamp env s) \<and>
     PollEvent env s1 = Inr s2 \<and>
     s4 = (Window_DrawSprites (time_elapsed s2) s2)\<lparr>frame_counter := frame_counter s2 + 1\<rparr> \<and>
     DetectCollision env s4 = Inr s5 \<and>
     s6 = EmitTimeEvent s5 \<and>
     fps s6 \<noteq> 0 \<and>
     s' = SetTimeElapsed (clock env (ticks s)) (fst (GetTimestamp env (SDL_Delay (word_of_int (1000 sdiv fps s6)) s6)))
            (snd (GetTimestamp env (SDL_Delay (word_of_int (1000 sdiv fps s6)) s6)))"
  using assms
proof -
  have fc: "frame_counter (Window_DrawSprites t x) = frame_counter x" for t x
    by (simp add: Window_DrawSprites_def record_obs_def)
  show ?thesis
    using assms
    by (auto simp: Run_iteration_def GetTimestamp_def Let_def fc
          split: sum.splits if_splits prod.splits)
qed

lemma Run_iteration_trace:
  assumes "Run_iteration env s = Inr s'"
  shows "\<exists>tp tc te.
     trace s' = trace s @ [Obs_GetTimestamp] @ tp @ [Obs_DrawSprites (time_elapsed s)] @ tc @ te @
                [Obs_SDL_Delay (word_of_int (1000 sdiv fps s)), Obs_GetTimestamp] \<and>
     list_all callback_obs tp \<and> list_all callback_obs tc \<and> list_all emit_obs te \<and>
     (is_running s' \<longleftrightarrow> is_running s \<and> Obs_Quit \<notin> set tp \<and> Obs_Quit \<notin> set tc) \<and>
     frame_counter s' = frame_counter s + 1 \<and> fps s' = fps s \<and> fps s \<noteq> 0 \<and>
     ticks s' = ticks s + 2 \<and>
     time_elapsed s' = clock env (Suc (ticks s)) - clock env (ticks s)"
proof -
  from Run_iteration_stages[OF assms] obtain s1 s2 s4 s5 s6 where
    s1: "s1 = snd (GetTimestamp env s)" and
    s2: "PollEvent env s1 = Inr s2" and
    s4: "s4 = (Window_DrawSprites (time_elapsed s2) s2)\<lparr>frame_counter := frame_counter s2 + 1\<rparr>" and
    s5: "DetectCollision env s4 = Inr s5" and
    s6: "s6 = EmitTimeEvent s5" and
    nz: "fps s6 \<noteq> 0" and
    s': "s' = SetTimeElapsed (clock env (ticks s)) (fst (GetTimestamp env (SDL_Delay (word_of_int (1000 sdiv fps s6)) s6)))
            (snd (GetTimestamp env (SDL_Delay (word_of_int (1000 sdiv fps s6)) s6)))"
    by blast
  let ?p = "s1\<lparr>queue := []\<rparr>"
  have d1: "dispatch_step ?p s2" by (rule PollEvent_dispatch_step[OF s2])
  have d2: "dispatch_step s4 s5" by (rule DetectCollision_dispatch_step[OF s5])
  define tp where "tp = new_trace ?p s2"
  define tc where "tc = new_trace s4 s5"
  define te where "te = new_trace s5 s6"
  have f1: "fps s1 = fps s" "frame_counter s1 = frame_counter s" "time_elapsed s1 = time_elapsed s"
    "ticks s1 = Suc (ticks s)" "is_running s1 = is_running s" "trace s1 = trace s @ [Obs_GetTimestamp]"
    by (simp_all add: s1 GetTimestamp_def record_obs_def)
  have f2: "fps s2 = fps s" "frame_counter s2 = frame_counter s" "time_elapsed s2 = time_elapsed s"
    "ticks s2 = Suc (ticks s)" "trace s2 = trace s @ [Obs_GetTimestamp] @ tp"
    "is_running s2 \<longleftrightarrow> is_running s \<and> Obs_Quit \<notin> set tp" "list_all callback_obs tp"
    using d1 dispatch_step_new_trace[OF d1] f1 by (simp_all add: dispatch_step_def tp_def)
  have f4: "fps s4 = fps s" "frame_counter s4 = frame_counter s + 1" "time_elapsed s4 = time_elapsed s"
    "ticks s4 = Suc (ticks s)" "trace s4 = trace s @ [Obs_GetTimestamp] @ tp @ [Obs_DrawSprites (time_elapsed s)]"
    "is_running s4 \<longleftrightarrow> is_running s \<and> Obs_Quit \<notin> set tp"
    using f2 by (simp_all add: s4 Window_DrawSprites_def record_obs_def)
  have f5: "fps s5 = fps s" "frame_counter s5 = frame_counter s + 1" "time_elapsed s5 = time_elapsed s"
    "ticks s5 = Suc (ticks s)"
    "trace s5 = trace s @ [Obs_GetTimestamp] @ tp @ [Obs_DrawSprites (time_elapsed s)] @ tc"
    "is_running s5 \<longleftrightarrow> is_running s \<and> Obs_Quit \<notin> set tp \<and> Obs_Quit \<notin> set tc"
    "list_all callback_obs tc"
    using d2 dispatch_step_new_trace[OF d2] f4 by (simp_all add: dispatch_step_def tc_def)
  have f6: "fps s6 = fps s" "frame_counter s6 = frame_counter s + 1" "time_elapsed s6 = time_elapsed s"
    "ticks s6 = Suc (ticks s)"
    "trace s6 = trace s @ [Obs_GetTimestamp] @ tp @ [Obs_DrawSprites (time_elapsed s)] @ tc @ te"
    "is_running s6 \<longleftrightarrow> is_running s \<and> Obs_Quit \<notin> set tp \<and> Obs_Quit \<notin> set tc"
    "list_all emit_obs te"
    using f5 EmitTimeEvent_trace[of s5] by (simp_all add: s6 EmitTimeEvent_fields te_def)
  have "trace s' = trace s @ [Obs_GetTimestamp] @ tp @ [Obs_DrawSprites (time_elapsed s)] @ tc @ te @
                [Obs_SDL_Delay (word_of_int (1000 sdiv fps s)), Obs_GetTimestamp]"
    "is_running s' \<longleftrightarrow> is_running s \<and> Obs_Quit \<notin> set tp \<and> Obs_Quit \<notin> set tc"
    "frame_counter s' = frame_counter s + 1" "fps s' = fps s" "fps s \<noteq> 0"
    "ticks s' = ticks s + 2"
    "time_elapsed s' = clock env (Suc (ticks s)) - clock env (ticks s)"
    using f6 nz by (simp_all add: s' SetTimeElapsed_def GetTimestamp_def SDL_Delay_def record_obs_def)
  with f2(7) f5(7) f6(7) show ?thesis by blast
qed

lemma delays_append: "delays (a @ b) = delays a @ delays b"
  by (induction a rule: delays.induct) simp_all

lemma delays_callback_obs: "list_all callback_obs tr \<Longrightarrow> delays tr = []"
  by (induction tr rule: delays.induct) simp_all

lemma delays_emit_obs: "list_all emit_obs tr \<Longrightarrow> delays tr = []"
  by (induction tr rule: delays.induct) simp_all

lemma sdiv_pos: "0 < (f::int) \<Longrightarrow> 1000 sdiv f = 1000 div f"
  by (simp add: signed_divide_int_def)

lemma EmitTimeEvent_disabled: "time_event_type s = - 1 \<Longrightarrow> EmitTimeEvent s = s"
  by (simp add: EmitTimeEvent_def)

lemma EmitTimeEvent_registered:
  "time_event_type s \<noteq> 0 \<Longrightarrow> time_event_type s \<noteq> - 1 \<Longrightarrow>
   EmitTimeEvent s = SDL_PushEvent (time_event (time_event_type s)) s"
  by (simp add: EmitTimeEvent_def)

lemma of_nat_userevent_neq:
  assumes "SDL_USEREVENT \<le> u" "u + 1 \<le> SDL_LASTEVENT"
  shows "(of_nat u :: Uint32) \<noteq> 0" "(of_nat u :: Uint32) \<noteq> - 1"
proof -
  have u: "0 < u" "u < 65535" using assms by (simp_all add: SDL_USEREVENT_def SDL_LASTEVENT_def)
  have un: "unat (of_nat u :: Uint32) = u"
    using u by (simp add: unat_of_nat)
  show "(of_nat u :: Uint32) \<noteq> 0"
  proof
    assume "(of_nat u :: Uint32) = 0"
    then have "unat (of_nat u :: Uint32) = 0" by simp
    with un u show False by simp
  qed
  show "(of_nat u :: Uint32) \<noteq> - 1"
  proof
    assume "(of_nat u :: Uint32) = - 1"
    then have "unat (of_nat u :: Uint32) = unat (- 1 :: Uint32)" by simp
    moreover have "unat (- 1 :: Uint32) = 4294967295"
      by (simp add: unsigned_minus_1_eq_mask mask_eq_exp_minus_1)
    ultimately show False using un u by simp
  qed
qed

lemma EmitTimeEvent_first_ok:
  assumes "time_event_type s = 0" "SDL_USEREVENT \<le> SDL_userevents s" "SDL_userevents s + 1 \<le> SDL_LASTEVENT"
  shows "EmitTimeEvent s =
     SDL_PushEvent (time_event (of_nat (SDL_userevents s)))
       (record_obs Obs_SDL_RegisterEvents s
          \<lparr>SDL_userevents := SDL_userevents s + 1, time_event_type := of_nat (SDL_userevents s)\<rparr>)"
  using assms of_nat_userevent_neq[OF assms(2,3)]
  by (simp add: EmitTimeEvent_def SDL_RegisterEvents_def Let_def record_obs_def)

lemma EmitTimeEvent_first_exhausted:
  assumes "time_event_type s = 0" "\<not> SDL_userevents s + 1 \<le> SDL_LASTEVENT"
  shows "EmitTimeEvent s = record_obs Obs_SDL_RegisterEvents s\<lparr>time_event_type := - 1\<rparr>"
  using assms
  by (simp add: EmitTimeEvent_def SDL_RegisterEvents_def Let_def record_obs_def)

lemma EmitTimeEvent_registrations:
  "registrations (EmitTimeEvent s) = registrations s + (if time_event_type s = 0 then 1 else 0)"
  by (simp add: registrations_def EmitTimeEvent_def SDL_RegisterEvents_def SDL_PushEvent_def
        record_obs_def Let_def)

lemma EmitTimeEvent_set:
  assumes "SDL_USEREVENT \<le> SDL_userevents s"
  shows "time_event_type (EmitTimeEvent s) \<noteq> 0" "SDL_USEREVENT \<le> SDL_userevents (EmitTimeEvent s)"
proof -
  show "time_event_type (EmitTimeEvent s) \<noteq> 0"
  proof (cases "time_event_type s = 0")
    case False
    then show ?thesis
      by (simp add: EmitTimeEvent_def SDL_PushEvent_def record_obs_def Let_def)
  next
    case True
    show ?thesis
    proof (cases "SDL_userevents s + 1 \<le> SDL_LASTEVENT")
      case True
      from EmitTimeEvent_first_ok[OF \<open>time_event_type s = 0\<close> assms True]
        of_nat_userevent_neq(1)[OF assms True]
      show ?thesis by (simp add: SDL_PushEvent_def record_obs_def)
    next
      case False
      from EmitTimeEvent_first_exhausted[OF \<open>time_event_type s = 0\<close> False]
      show ?thesis by (simp add: record_obs_def)
    qed
  qed
  show "SDL_USEREVENT \<le> SDL_userevents (EmitTimeEvent s)"
    using assms
    by (simp add: EmitTimeEvent_def SDL_RegisterEvents_def SDL_PushEvent_def record_obs_def Let_def)
qed

lemma EmitTimeEvent_keeps_type:
  "time_event_type s \<noteq> 0 \<Longrightarrow> time_event_type (EmitTimeEvent s) = time_event_type s"
  by (simp add: EmitTimeEvent_def SDL_PushEvent_def record_obs_def Let_def)

lemma EmitTimeEvent_repeat_registered:
  "time_event_type s \<noteq> 0 \<Longrightarrow>
   registrations ((EmitTimeEvent ^^ n) s) = registrations s \<and>
   time_event_type ((EmitTimeEvent ^^ n) s) = time_event_type s"
  by (induction n) (simp_all add: EmitTimeEvent_registrations EmitTimeEvent_keeps_type)

lemma EmitTimeEvent_repeat_disabled:
  "time_event_type s = - 1 \<Longrightarrow> (EmitTimeEvent ^^ n) s = s"
  by (induction n) (simp_all add: EmitTimeEvent_disabled)

lemma dispatch_step_registrations: "dispatch_step s s' \<Longrightarrow> registrations s' = registrations s"
proof -
  have none: "list_all callback_obs tr \<Longrightarrow> count_list tr Obs_SDL_RegisterEvents = 0" for tr
    by (induction tr) auto
  assume "dispatch_step s s'"
  then obtain tr where "trace s' = trace s @ tr" "list_all callback_obs tr"
    unfolding dispatch_step_def by blast
  with none[of tr] show ?thesis by (simp add: registrations_def)
qed

lemma Run_iteration_registrations:
  assumes "Run_iteration env s = Inr s'" and "SDL_USEREVENT \<le> SDL_userevents s"
  shows "registrations s' = registrations s + (if time_event_type s = 0 then 1 else 0)"
    and "time_event_type s' \<noteq> 0" and "SDL_USEREVENT \<le> SDL_userevents s'"
proof -
  from Run_iteration_stages[OF assms(1)] obtain s1 s2 s4 s5 s6 where
    s1: "s1 = snd (GetTimestamp env s)" and
    s2: "PollEvent env s1 = Inr s2" and
    s4: "s4 = (Window_DrawSprites (time_elapsed s2) s2)\<lparr>frame_counter := frame_counter s2 + 1\<rparr>" and
    s5: "DetectCollision env s4 = Inr s5" and
    s6: "s6 = EmitTimeEvent s5" and
    s': "s' = SetTimeElapsed (clock env (ticks s)) (fst (GetTimestamp env (SDL_Delay (word_of_int (1000 sdiv fps s6)) s6)))
            (snd (GetTimestamp env (SDL_Delay (word_of_int (1000 sdiv fps s6)) s6)))"
    by blast
  have d1: "dispatch_step (s1\<lparr>queue := []\<rparr>) s2" by (rule PollEvent_dispatch_step[OF s2])
  have d2: "dispatch_step s4 s5" by (rule DetectCollision_dispatch_step[OF s5])
  have f1: "registrations (s1\<lparr>queue := []\<rparr>) = registrations s"
    "time_event_type (s1\<lparr>queue := []\<rparr>) = time_event_type s"
    "SDL_userevents (s1\<lparr>queue := []\<rparr>) = SDL_userevents s"
    by (simp_all add: s1 GetTimestamp_def record_obs_def registrations_def)
  have f2: "registrations s2 = registrations s" "time_event_type s2 = time_event_type s"
    "SDL_userevents s2 = SDL_userevents s"
    using d1 dispatch_step_registrations[OF d1] f1 by (simp_all add: dispatch_step_def)
  have f4: "registrations s4 = registrations s" "time_event_type s4 = time_event_type s"
    "SDL_userevents s4 = SDL_userevents s"
    using f2 by (simp_all add: s4 Window_DrawSprites_def record_obs_def registrations_def)
  have f5: "registrations s5 = registrations s" "time_event_type s5 = time_event_type s"
    "SDL_userevents s5 = SDL_userevents s"
    using d2 dispatch_step_registrations[OF d2] f4 by (simp_all add: dispatch_step_def)
  have J: "SDL_USEREVENT \<le> SDL_userevents s5" using assms(2) f5 by simp
  have f6: "registrations s6 = registrations s + (if time_event_type s = 0 then 1 else 0)"
    "time_event_type s6 \<noteq> 0" "SDL_USEREVENT \<le> SDL_userevents s6"
    using EmitTimeEvent_registrations[of s5] EmitTimeEvent_set[OF J] f5 by (simp_all add: s6)
  have "registrations s' = registrations s6" "time_event_type s' = time_event_type s6"
    "SDL_userevents s' = SDL_userevents s6"
    by (simp_all add: s' SetTimeElapsed_def GetTimestamp_def SDL_Delay_def record_obs_def
          registrations_def)
  with f6 show "registrations s' = registrations s + (if time_event_type s = 0 then 1 else 0)"
    and "time_event_type s' \<noteq> 0" and "SDL_USEREVENT \<le> SDL_userevents s'"
    by simp_all
qed

lemma Run_loop_registrations:
  "Run_loop env n s = Some (Inr s') \<Longrightarrow> SDL_USEREVENT \<le> SDL_userevents s \<Longrightarrow>
   registrations s' \<le> registrations s + (if time_event_type s = 0 then 1 else 0)"
proof (induction n arbitrary: s)
  case 0
  then show ?case by (simp split: if_splits)
next
  case (Suc n)
  show ?case
  proof (cases "is_running s")
    case False
    with Suc.prems show ?thesis by simp
  next
    case True
    with Suc.prems(1) obtain m where m: "Run_iteration env s = Inr m" "Run_loop env n m = Some (Inr s')"
      by (auto split: sum.splits)
    from Run_iteration_registrations[OF m(1) Suc.prems(2)] Suc.IH[OF m(2)]
    show ?thesis by simp
  qed
qed

text \<open>
  Claim C9. On a platform whose user event numbers start at \<^verbatim>\<open>SDL_USEREVENT\<close>,
  \<^verbatim>\<open>EmitTimeEvent\<close> calls \<^verbatim>\<open>SDL_RegisterEvents\<close> exactly when the stored type is
  still 0, so any number of calls, and any run of the main loop, registers at most once,
  and not at all when the type is already set. When the platform has no number left, the
  call stores \<^verbatim>\<open>(Uint32)-1\<close> and pushes nothing; and once the stored type is
  \<^verbatim>\<open>(Uint32)-1\<close> every further call leaves the whole state as it is.
\<close>

theorem EmitTimeEvent_registers_once:
  assumes "SDL_USEREVENT \<le> SDL_userevents s"
  shows "registrations (EmitTimeEvent s) = registrations s + (if time_event_type s = 0 then 1 else 0) \<and>
     registrations ((EmitTimeEvent ^^ n) s) \<le> registrations s + 1 \<and>
     (\<forall>env k s'. Run_loop env k s = Some (Inr s') \<longrightarrow> registrations s' \<le> registrations s + 1) \<and>
     (time_event_type s \<noteq> 0 \<longrightarrow> registrations ((EmitTimeEvent ^^ n) s) = registrations s) \<and>
     (time_event_type s = 0 \<and> SDL_LASTEVENT < SDL_userevents s + 1 \<longrightarrow>
        EmitTimeEvent s = record_obs Obs_SDL_RegisterEvents s\<lparr>time_event_type := - 1\<rparr>) \<and>
     (time_event_type (EmitTimeEvent s) = - 1 \<longrightarrow>
        queue (EmitTimeEvent s) = queue s \<and> (EmitTimeEvent ^^ Suc n) s = EmitTimeEvent s)"
proof (intro conjI impI allI)
  show "registrations (EmitTimeEvent s) = registrations s + (if time_event_type s = 0 then 1 else 0)"
    by (rule EmitTimeEvent_registrations)
  show "registrations ((EmitTimeEvent ^^ n) s) \<le> registrations s + 1"
  proof (cases n)
    case 0
    then show ?thesis by simp
  next
    case (Suc m)
    have "(EmitTimeEvent ^^ n) s = (EmitTimeEvent ^^ m) (EmitTimeEvent s)"
      by (simp add: Suc funpow_swap1)
    moreover have "time_event_type (EmitTimeEvent s) \<noteq> 0" by (rule EmitTimeEvent_set(1)[OF assms])
    ultimately have "registrations ((EmitTimeEvent ^^ n) s) = registrations (EmitTimeEvent s)"
      by (simp add: EmitTimeEvent_repeat_registered)
    then show ?thesis by (simp add: EmitTimeEvent_registrations)
  qed
  show "registrations s' \<le> registrations s + 1" if "Run_loop env k s = Some (Inr s')" for env k s'
    using Run_loop_registrations[OF that assms] by (simp split: if_splits)
  show "registrations ((EmitTimeEvent ^^ n) s) = registrations s" if "time_event_type s \<noteq> 0"
    using that by (simp add: EmitTimeEvent_repeat_registered)
  show "EmitTimeEvent s = record_obs Obs_SDL_RegisterEvents s\<lparr>time_event_type := - 1\<rparr>"
    if "time_event_type s = 0 \<and> SDL_LASTEVENT < SDL_userevents s + 1"
    using that by (intro EmitTimeEvent_first_exhausted) simp_all
  show "queue (EmitTimeEvent s) = queue s" if "time_event_type (EmitTimeEvent s) = - 1"
    using that
    by (auto simp: EmitTimeEvent_def SDL_RegisterEvents_def SDL_PushEvent_def record_obs_def Let_def
          split: if_splits)
  show "(EmitTimeEvent ^^ Suc n) s = EmitTimeEvent s" if "time_event_type (EmitTimeEvent s) = - 1"
  proof -
    have "(EmitTimeEvent ^^ Suc n) s = (EmitTimeEvent ^^ n) (EmitTimeEvent s)"
      by (simp add: funpow_swap1)
    with that show ?thesis by (simp add: EmitTimeEvent_repeat_disabled)
  qed
qed

text \<open>
  On the exhausted platform the first call registers and fails, later calls do nothing;
  on a fresh platform the type becomes \<^verbatim>\<open>0x8000\<close> and is registered once, also over a
  run of the main loop.
\<close>

theorem EmitTimeEvent_registers_once_witness:
  "SDL_USEREVENT \<le> SDL_userevents exhausted_engine \<and>
   time_event_type exhausted_engine = 0 \<and>
   SDL_LASTEVENT < SDL_userevents exhausted_engine + 1 \<and>
   time_event_type (EmitTimeEvent exhausted_engine) = - 1 \<and>
   trace (EmitTimeEvent exhausted_engine) = [Obs_SDL_RegisterEvents] \<and>
   queue (EmitTimeEvent exhausted_engine) = [] \<and>
   (EmitTimeEvent ^^ Suc 3) exhausted_engine = EmitTimeEvent exhausted_engine \<and>
   registrations ((EmitTimeEvent ^^ 4) exhausted_engine) \<le> 1 \<and>
   SDL_USEREVENT \<le> SDL_userevents (EmitTimeEvent (Engine_new 30)) \<and>
   time_event_type (EmitTimeEvent (Engine_new 30)) = 0x8000 \<and>
   registrations ((EmitTimeEvent ^^ 3) (EmitTimeEvent (Engine_new 30))) = 1 \<and>
   SDL_USEREVENT \<le> SDL_userevents (demo_engine\<lparr>queue := [quit_event]\<rparr>) \<and>
   (\<exists>s'. Run_loop demo_env 2 (demo_engine\<lparr>queue := [quit_event]\<rparr>) = Some (Inr s') \<and>
         registrations s' \<le> 1)"
proof -
  have h: "SDL_USEREVENT \<le> SDL_userevents exhausted_engine"
    by (simp add: exhausted_engine_def Engine_new_def SDL_USEREVENT_def SDL_LASTEVENT_def)
  have z: "time_event_type exhausted_engine = 0" "SDL_LASTEVENT < SDL_userevents exhausted_engine + 1"
    "registrations exhausted_engine = 0" "queue exhausted_engine = []"
    by (simp_all add: exhausted_engine_def Engine_new_def registrations_def)
  from EmitTimeEvent_registers_once[OF h, of 3] z
  have e: "EmitTimeEvent exhausted_engine = record_obs Obs_SDL_RegisterEvents exhausted_engine\<lparr>time_event_type := - 1\<rparr>"
    by blast
  then have m: "time_event_type (EmitTimeEvent exhausted_engine) = - 1"
    "trace (EmitTimeEvent exhausted_engine) = [Obs_SDL_RegisterEvents]"
    by (simp_all add: record_obs_def exhausted_engine_def Engine_new_def)
  from EmitTimeEvent_registers_once[OF h, of 3] m(1)
  have "queue (EmitTimeEvent exhausted_engine) = queue exhausted_engine"
    "(EmitTimeEvent ^^ Suc 3) exhausted_engine = EmitTimeEvent exhausted_engine"
    by blast+
  with z have a: "queue (EmitTimeEvent exhausted_engine) = []"
    "(EmitTimeEvent ^^ Suc 3) exhausted_engine = EmitTimeEvent exhausted_engine"
    by simp_all
  from EmitTimeEvent_registers_once[OF h, of 4]
  have "registrations ((EmitTimeEvent ^^ 4) exhausted_engine) \<le> registrations exhausted_engine + 1"
    by blast
  with z have b: "registrations ((EmitTimeEvent ^^ 4) exhausted_engine) \<le> 1" by simp
  have g: "SDL_USEREVENT \<le> SDL_userevents (EmitTimeEvent (Engine_new 30))"
    "time_event_type (EmitTimeEvent (Engine_new 30)) = 0x8000"
    "registrations (EmitTimeEvent (Engine_new 30)) = 1"
    by (simp_all add: Engine_new_def EmitTimeEvent_def SDL_RegisterEvents_def SDL_PushEvent_def
          record_obs_def Let_def SDL_USEREVENT_def SDL_LASTEVENT_def registrations_def)
  have "time_event_type (EmitTimeEvent (Engine_new 30)) \<noteq> 0" by (simp add: g(2))
  with EmitTimeEvent_registers_once[OF g(1), of 3] g(3)
  have c: "registrations ((EmitTimeEvent ^^ 3) (EmitTimeEvent (Engine_new 30))) = 1" by simp
  let ?q = "demo_engine\<lparr>queue := [quit_event]\<rparr>"
  have hq: "SDL_USEREVENT \<le> SDL_userevents ?q" "registrations ?q = 0"
    by (simp_all add: demo_defs registrations_def)
  have "\<exists>s'. Run_loop demo_env (Suc (Suc 0)) ?q = Some (Inr s')"
    by (simp add: demo_defs engine_defs Let_def)
  then obtain s' where run: "Run_loop demo_env 2 ?q = Some (Inr s')"
    by (auto simp: numeral_2_eq_2)
  from EmitTimeEvent_registers_once[OF hq(1), of 0] run hq(2)
  have "registrations s' \<le> 1" by fastforce
  with run have d: "\<exists>s'. Run_loop demo_env 2 ?q = Some (Inr s') \<and> registrations s' \<le> 1" by blast
  from h z(1,2) m a b g(1,2) c hq(1) d show ?thesis by simp
qed

lemma exec_cmd_trace:
  "exec_cmd c s = Inr s' \<Longrightarrow> \<exists>tr. trace s' = trace s @ tr \<and> list_all cmd_obs tr"
  by (cases c)
     (auto simp: Quit_def record_obs_def SetCollisionListener_def SetCurrentLevel_def
        Window_LoadLevel_def AddSprite_def Window_LoadSprite_def RemoveSprite_def
        delete_sprite_def Sprite_SetX_def Sprite_SetY_def Let_def
        split: option.splits if_splits sum.splits)

lemma exec_cmds_trace:
  "exec_cmds cs s = Inr s' \<Longrightarrow> \<exists>tr. trace s' = trace s @ tr \<and> list_all cmd_obs tr"
proof (induction cs arbitrary: s)
  case Nil
  then show ?case by simp
next
  case (Cons c cs)
  then obtain m where m: "exec_cmd c s = Inr m" "exec_cmds cs m = Inr s'"
    by (auto split: sum.splits)
  from exec_cmd_trace[OF m(1)] obtain t1 where t1: "trace m = trace s @ t1" "list_all cmd_obs t1"
    by blast
  from Cons.IH[OF m(2)] obtain t2 where t2: "trace s' = trace m @ t2" "list_all cmd_obs t2"
    by blast
  have "trace s' = trace s @ (t1 @ t2) \<and> list_all cmd_obs (t1 @ t2)" using t1 t2 by simp
  then show ?case by blast
qed

lemma listener_calls_append: "listener_calls (a @ b) = listener_calls a @ listener_calls b"
  by (induction a rule: listener_calls.induct) simp_all

lemma listener_calls_cmd_obs: "list_all cmd_obs tr \<Longrightarrow> listener_calls tr = []"
  by (induction tr rule: listener_calls.induct) simp_all

lemma call_event_listener_calls:
  assumes "call_event_listener env l s = Inr s'"
  shows "listener_calls (trace s') = listener_calls (trace s) @ [l]"
proof -
  from assms have r: "exec_cmds (event_listener_code env l (record_obs (Obs_listener l) s))
      (record_obs (Obs_listener l) s) = Inr s'"
    by (auto simp: call_event_listener_def Let_def split: if_splits)
  from exec_cmds_trace[OF r] obtain tr where
    "trace s' = trace s @ [Obs_listener l] @ tr" "list_all cmd_obs tr"
    by (auto simp: record_obs_def)
  then show ?thesis by (simp add: listener_calls_append listener_calls_cmd_obs)
qed

lemma smod_eq_0_iff:
  fixes i r :: int
  assumes "0 < r"
  shows "i smod r = 0 \<longleftrightarrow> i mod r = 0"
proof -
  have "i smod r = 0 \<longleftrightarrow> \<bar>i\<bar> mod r = 0"
    using assms by (auto simp: signed_modulo_int_def sgn_if)
  also have "\<dots> \<longleftrightarrow> r dvd \<bar>i\<bar>" by (simp add: dvd_eq_mod_eq_0)
  also have "\<dots> \<longleftrightarrow> r dvd i" by simp
  also have "\<dots> \<longleftrightarrow> i mod r = 0" by (simp add: dvd_eq_mod_eq_0)
  finally show ?thesis .
qed

lemma HandleTime_entry_calls:
  assumes "HandleTime_entry env e entry s = Inr s'"
    and "user_data1 e = Fps_ptr" and "user_data2 e = Frame_counter_ptr"
  shows "listener_calls (trace s') =
         listener_calls (trace s) @ (if fires_at s (fst entry) then [snd entry] else [])"
proof (cases "fires_at s (fst entry)")
  case True
  then have "call_event_listener env (snd entry) s = Inr s'"
    using assms
    by (auto simp: HandleTime_entry_def deref_def double_to_int_def Let_def fires_at_def
          spec_fires_def smod_eq_0_iff split: if_splits)
  from call_event_listener_calls[OF this] True show ?thesis by simp
next
  case False
  then have "s' = s"
    using assms
    by (auto simp: HandleTime_entry_def deref_def double_to_int_def Let_def fires_at_def
          spec_fires_def smod_eq_0_iff split: if_splits)
  with False show ?thesis by simp
qed

lemma fires_at_dispatch_step: "dispatch_step s s' \<Longrightarrow> fires_at s' d = fires_at s d"
  by (simp add: fires_at_def dispatch_step_def)

lemma for_each_HandleTime_calls:
  assumes "for_each xs (HandleTime_entry env e) s = Inr s'"
    and "user_data1 e = Fps_ptr" and "user_data2 e = Frame_counter_ptr"
  shows "listener_calls (trace s') =
         listener_calls (trace s) @ map snd (filter (\<lambda>entry. fires_at s (fst entry)) xs)"
  using assms(1)
proof (induction xs arbitrary: s)
  case Nil
  then show ?case by simp
next
  case (Cons x xs)
  then obtain m where m: "HandleTime_entry env e x s = Inr m"
    "for_each xs (HandleTime_entry env e) m = Inr s'"
    by (auto split: sum.splits)
  have same: "fires_at m d = fires_at s d" for d
    by (rule fires_at_dispatch_step[OF HandleTime_entry_dispatch_step[OF m(1)]])
  from HandleTime_entry_calls[OF m(1) assms(2,3)] Cons.IH[OF m(2)]
  show ?case by (simp add: same)
qed

lemma new_trace_append: "trace s' = trace s @ tr \<Longrightarrow> new_trace s s' = tr"
  by (simp add: new_trace_def)

lemma HandleTime_calls:
  assumes "HandleTime env e s = Inr s'"
    and "user_data1 e = Fps_ptr" and "user_data2 e = Frame_counter_ptr"
  shows "listener_calls (new_trace s s') =
         map snd (filter (\<lambda>entry. fires_at s (fst entry)) (time_listeners s))"
proof -
  from assms(1) have run: "for_each (time_listeners s) (HandleTime_entry env e) s = Inr s'"
    by (simp add: HandleTime_def)
  have "trace s' = trace s @ new_trace s s'"
    by (rule dispatch_step_new_trace(1)[OF HandleTime_dispatch_step[OF assms(1)]])
  then have "listener_calls (trace s') = listener_calls (trace s) @ listener_calls (new_trace s s')"
    by (metis listener_calls_append)
  with for_each_HandleTime_calls[OF run assms(2,3)] show ?thesis by simp
qed

lemma map_assign_twice: "map_assign k v2 (map_assign k v1 m) = map_assign k v2 m"
  by (induction m) auto

lemma map_assign_other_keys:
  "filter (\<lambda>entry. fst entry \<noteq> k) (map_assign k v m) = filter (\<lambda>entry. fst entry \<noteq> k) m"
  by (induction m) auto

lemma map_assign_own_key:
  "sorted_wrt (<) (map fst m) \<Longrightarrow> filter (\<lambda>entry. fst entry = k) (map_assign k v m) = [(k, v)]"
proof (induction m)
  case Nil
  then show ?case by simp
next
  case (Cons a m)
  obtain k' v' where a: "a = (k', v')" by (cases a)
  from Cons.prems have later: "\<forall>x\<in>set m. k' < fst x" and sm: "sorted_wrt (<) (map fst m)"
    by (auto simp: a)
  show ?case
  proof (cases "k \<le> k'")
    case True
    then have "filter (\<lambda>entry. fst entry = k) m = []" using later by (auto simp: filter_empty_conv)
    with True show ?thesis by (auto simp: a)
  next
    case False
    with Cons.IH[OF sm] show ?thesis by (auto simp: a)
  qed
qed

lemma HandleTime_entry_int_range:
  assumes "HandleTime_entry env e entry s = Inr s'" and "user_data1 e = Fps_ptr"
  shows "int_range (period_frames (fps s) (fst entry))"
  using assms
  by (cases "user_data2 e")
     (auto simp: HandleTime_entry_def deref_def double_to_int_def split: if_splits)

lemma for_each_HandleTime_int_range:
  assumes "for_each xs (HandleTime_entry env e) s = Inr s'" and "user_data1 e = Fps_ptr"
  shows "list_all (\<lambda>entry. int_range (period_frames (fps s) (fst entry))) xs"
  using assms(1)
proof (induction xs arbitrary: s)
  case Nil
  then show ?case by simp
next
  case (Cons x xs)
  then obtain m where m: "HandleTime_entry env e x s = Inr m"
    "for_each xs (HandleTime_entry env e) m = Inr s'"
    by (auto split: sum.splits)
  have "fps m = fps s"
    using HandleTime_entry_dispatch_step[OF m(1)] by (simp add: dispatch_step_def)
  with HandleTime_entry_int_range[OF m(1) assms(2)] Cons.IH[OF m(2)] show ?case by simp
qed

text \<open>
  Claim C2. When \<^verbatim>\<open>HandleTime\<close> processes a time event (whose payload points to the
  engine's \<^verbatim>\<open>fps\<close> and \<^verbatim>\<open>frame_counter\<close>) and returns, the listeners it has called
  are, in key order, those registered at a delay \<open>d\<close> for which the rule holds with \<open>r\<close>
  the value that the code computes in double precision,
  \<^verbatim>\<open>(int)(round((fps / 1000.0) * d))\<close>, and \<open>i\<close> the frame counter: \<open>i mod r = 0\<close> when
  \<open>r > 0\<close>, and always when \<open>r\<close> is 0 or negative. So a registered listener is called
  when its rule holds, and a listener is called only for a registered delay whose rule
  holds; every such \<open>r\<close> fits an \<^verbatim>\<open>int\<close>, since the conversion is undefined otherwise.
  For \<open>f\<close> and \<open>d\<close> that are not negative, with \<open>f * d\<close> below \<open>1000 * 2 ^ 31\<close>, the computed
  \<open>r\<close> is the exactly rounded \<open>(f / 1000) * d\<close> of the specification unless that product
  lies halfway between two integers (\<open>f * d mod 1000 = 500\<close>); there it is one of the two
  neighbours.
\<close>

theorem HandleTime_firing_rule:
  assumes "HandleTime env e s = Inr s'"
    and "user_data1 e = Fps_ptr" and "user_data2 e = Frame_counter_ptr"
  shows "listener_calls (new_trace s s') =
           map snd (filter (\<lambda>entry. spec_fires (period_frames (fps s) (fst entry))
                                       (sint (frame_counter s)))
                      (time_listeners s)) \<and>
         (\<forall>d l. (d, l) \<in> set (time_listeners s) \<and>
                spec_fires (period_frames (fps s) d) (sint (frame_counter s)) \<longrightarrow>
                l \<in> set (listener_calls (new_trace s s'))) \<and>
         (\<forall>l. l \<in> set (listener_calls (new_trace s s')) \<longrightarrow>
              (\<exists>d. (d, l) \<in> set (time_listeners s) \<and>
                   spec_fires (period_frames (fps s) d) (sint (frame_counter s)))) \<and>
         (\<forall>d l. (d, l) \<in> set (time_listeners s) \<longrightarrow> int_range (period_frames (fps s) d)) \<and>
         (\<forall>f d. 0 \<le> f \<and> 0 \<le> d \<and> f * d < 1000 * 2 ^ 31 \<longrightarrow>
            (f * d mod 1000 \<noteq> 500 \<longrightarrow> period_frames f d = spec_period f d) \<and>
            (period_frames f d = f * d div 1000 \<or> period_frames f d = f * d div 1000 + 1))"
proof -
  let ?f = "\<lambda>entry. spec_fires (period_frames (fps s) (fst entry)) (sint (frame_counter s))"
  have calls: "listener_calls (new_trace s s') = map snd (filter ?f (time_listeners s))"
    using HandleTime_calls[OF assms] by (simp add: fires_at_def)
  have called: "l \<in> set (listener_calls (new_trace s s'))"
    if "(d, l) \<in> set (time_listeners s) \<and>
        spec_fires (period_frames (fps s) d) (sint (frame_counter s))" for d l
  proof -
    from that have "(d, l) \<in> set (filter ?f (time_listeners s))" by simp
    then have "snd (d, l) \<in> snd ` set (filter ?f (time_listeners s))" by (rule imageI)
    then show ?thesis by (simp add: calls)
  qed
  have only: "\<exists>d. (d, l) \<in> set (time_listeners s) \<and>
                 spec_fires (period_frames (fps s) d) (sint (frame_counter s))"
    if "l \<in> set (listener_calls (new_trace s s'))" for l
  proof -
    from that obtain entry where "entry \<in> set (filter ?f (time_listeners s))" "l = snd entry"
      by (auto simp: calls)
    then have "(fst entry, l) \<in> set (time_listeners s) \<and>
               spec_fires (period_frames (fps s) (fst entry)) (sint (frame_counter s))" by simp
    then show ?thesis by blast
  qed
  have fit: "int_range (period_frames (fps s) d)" if "(d, l) \<in> set (time_listeners s)" for d l
  proof -
    from assms(1) have "for_each (time_listeners s) (HandleTime_entry env e) s = Inr s'"
      by (simp add: HandleTime_def)
    from for_each_HandleTime_int_range[OF this assms(2)] that show ?thesis
      by (auto simp: list_all_iff)
  qed
  have exact: "(f * d mod 1000 \<noteq> 500 \<longrightarrow> period_frames f d = spec_period f d) \<and>
      (period_frames f d = f * d div 1000 \<or> period_frames f d = f * d div 1000 + 1)"
    if "0 \<le> f \<and> 0 \<le> d \<and> f * d < 1000 * 2 ^ 31" for f d
  proof -
    from that have f: "0 \<le> f" and d: "0 \<le> d" and small: "f * d < 1000 * 2 ^ 31" by simp_all
    from f d have "0 \<le> f * d" by simp
    then have "spec_period f d = (f * d + 500) div 1000" by (rule spec_period_eq)
    with period_frames_exact[OF f d small] show ?thesis by simp
  qed
  from calls called only fit exact show ?thesis by blast
qed

text \<open>
  At frame 45 and 30 frames per second the listeners at 10 ms (period 0) and at 500 ms
  (period 15) are called, the listener at 1000 ms (period 30) is not. The period at 500
  ms is the exactly rounded one, 15.
\<close>

theorem HandleTime_firing_rule_witness:
  "user_data1 (time_event 0x8000) = Fps_ptr \<and> user_data2 (time_event 0x8000) = Frame_counter_ptr \<and>
   time_listeners timer_engine = [(10, 4), (500, 5), (1000, 6)] \<and>
   (\<exists>s'. HandleTime demo_env (time_event 0x8000) timer_engine = Inr s' \<and>
         listener_calls (new_trace timer_engine s') = [4, 5]) \<and>
   int_range (period_frames (fps timer_engine) 500) \<and>
   (0::int) \<le> 30 \<and> (0::int) \<le> 500 \<and> (30::int) * 500 < 1000 * 2 ^ 31 \<and>
   (30::int) * 500 mod 1000 \<noteq> 500 \<and> period_frames 30 500 = spec_period 30 500 \<and>
   spec_period 30 500 = 15"
proof -
  have p: "user_data1 (time_event 0x8000) = Fps_ptr" "user_data2 (time_event 0x8000) = Frame_counter_ptr"
    by (simp_all add: time_event_def)
  have tl: "time_listeners timer_engine = [(10, 4), (500, 5), (1000, 6)]"
    by (simp add: timer_engine_def AddTimeListener_def demo_defs)
  have v: "fps timer_engine = 30" "sint (frame_counter timer_engine) = 45"
    by (simp_all add: timer_engine_def AddTimeListener_def demo_defs)
  have "\<exists>s'. HandleTime demo_env (time_event 0x8000) timer_engine = Inr s'"
    by (simp add: timer_engine_def AddTimeListener_def demo_defs engine_defs Let_def
          signed_modulo_int_def period_frames_values)
  then obtain s' where run: "HandleTime demo_env (time_event 0x8000) timer_engine = Inr s'" ..
  note rule = HandleTime_firing_rule[OF run p]
  from rule
  have "listener_calls (new_trace timer_engine s') =
           map snd (filter (\<lambda>entry. spec_fires (period_frames (fps timer_engine) (fst entry))
                                       (sint (frame_counter timer_engine)))
                      (time_listeners timer_engine))" by blast
  then have calls: "listener_calls (new_trace timer_engine s') = [4, 5]"
    by (simp add: tl v spec_fires_def period_frames_values)
  have "(500, 5) \<in> set (time_listeners timer_engine)" by (simp add: tl)
  with rule have fit: "int_range (period_frames (fps timer_engine) 500)" by blast
  have n: "(0::int) \<le> 30 \<and> (0::int) \<le> 500 \<and> (30::int) * 500 < 1000 * 2 ^ 31" by simp
  have m: "(30::int) * 500 mod 1000 \<noteq> 500" by simp
  from rule have "(0::int) \<le> 30 \<and> (0::int) \<le> 500 \<and> (30::int) * 500 < 1000 * 2 ^ 31 \<longrightarrow>
      ((30::int) * 500 mod 1000 \<noteq> 500 \<longrightarrow> period_frames 30 500 = spec_period 30 500)"
    by blast
  with n m have e: "period_frames 30 500 = spec_period 30 500" by blast
  then have sp: "spec_period 30 500 = 15" by (simp add: period_frames_values)
  from p tl run calls fit n m e sp show ?thesis by blast
qed

text \<open>
  The rule in the words of the specification fails at 18 frames per second and a delay
  of 750 ms. The exact product is 13.5, which rounds to 14; in double precision the
  quotient 18 / 1000.0 is rounded down, the product is 13.499999999999998, and the code
  computes 13. So at frame 13 the listener is called, where the specification's rule
  says it is not, and at frame 14 it is not called, where the rule says it is.
\<close>

theorem HandleTime_firing_rule_counterexample:
  "period_frames 18 750 = 13 \<and> spec_period 18 750 = 14 \<and>
   fps tie_engine = 18 \<and> time_listeners tie_engine = [(750, 4)] \<and>
   (\<exists>s'. HandleTime demo_env (time_event 0x8000) (tie_engine\<lparr>frame_counter := 13\<rparr>) = Inr s' \<and>
         listener_calls (new_trace (tie_engine\<lparr>frame_counter := 13\<rparr>) s') = [4]) \<and>
   \<not> spec_fires (spec_period 18 750) 13 \<and>
   (\<exists>s'. HandleTime demo_env (time_event 0x8000) (tie_engine\<lparr>frame_counter := 14\<rparr>) = Inr s' \<and>
         listener_calls (new_trace (tie_engine\<lparr>frame_counter := 14\<rparr>) s') = []) \<and>
   spec_fires (spec_period 18 750) 14"
  by (simp add: tie_engine_def AddTimeListener_def demo_defs engine_defs Let_def
        signed_modulo_int_def period_frames_values spec_period_values spec_fires_def)

text \<open>
  A number of frames that does not fit an \<^verbatim>\<open>int\<close>: the conversion is undefined, and
  with it the call of \<^verbatim>\<open>HandleTime\<close>.
\<close>

lemma HandleTime_conversion_overflow:
  "HandleTime demo_env (time_event 0x8000) overflow_engine = Inl ConversionOverflow"
  by (simp add: overflow_engine_def AddTimeListener_def demo_defs engine_defs Let_def
        period_frames_values)

text \<open>
  Claim C3. After \<^verbatim>\<open>AddTimeListener(L1, d)\<close> and then \<^verbatim>\<open>AddTimeListener(L2, d)\<close>
  the registry is what the second call alone would have produced: it holds exactly one
  entry at \<open>d\<close>, for \<open>L2\<close>, and its entries at other delays are those it had before. In
  every later state with this registry, a time event that \<^verbatim>\<open>HandleTime\<close> processes calls
  \<open>L2\<close> when the rule for \<open>d\<close> holds, and does not call \<open>L1\<close> (unless \<open>L1\<close> is \<open>L2\<close> or is
  registered at another delay).
\<close>

theorem AddTimeListener_replaces:
  assumes "sorted_wrt (<) (map fst (time_listeners s))"
    and "s2 = AddTimeListener l2 d (AddTimeListener l1 d s)"
  shows "time_listeners s2 = time_listeners (AddTimeListener l2 d s) \<and>
     filter (\<lambda>entry. fst entry = d) (time_listeners s2) = [(d, l2)] \<and>
     filter (\<lambda>entry. fst entry \<noteq> d) (time_listeners s2) =
       filter (\<lambda>entry. fst entry \<noteq> d) (time_listeners s) \<and>
     (\<forall>t e t'. time_listeners t = time_listeners s2 \<and> HandleTime env e t = Inr t' \<and>
         user_data1 e = Fps_ptr \<and> user_data2 e = Frame_counter_ptr \<longrightarrow>
         (spec_fires (period_frames (fps t) d) (sint (frame_counter t)) \<longrightarrow>
            l2 \<in> set (listener_calls (new_trace t t'))) \<and>
         (l1 \<noteq> l2 \<and> l1 \<notin> snd ` set (filter (\<lambda>entry. fst entry \<noteq> d) (time_listeners s)) \<longrightarrow>
            l1 \<notin> set (listener_calls (new_trace t t'))))"
proof -
  let ?m = "time_listeners s" and ?m2 = "time_listeners s2"
  have m2: "?m2 = map_assign d l2 ?m"
    by (simp add: assms(2) AddTimeListener_def map_assign_twice)
  have own: "filter (\<lambda>entry. fst entry = d) ?m2 = [(d, l2)]"
    unfolding m2 by (rule map_assign_own_key[OF assms(1)])
  have others: "filter (\<lambda>entry. fst entry \<noteq> d) ?m2 = filter (\<lambda>entry. fst entry \<noteq> d) ?m"
    unfolding m2 by (rule map_assign_other_keys)
  have mem: "(d, l2) \<in> set ?m2"
  proof -
    have "(d, l2) \<in> set (filter (\<lambda>entry. fst entry = d) ?m2)" by (simp add: own)
    then show ?thesis by simp
  qed
  have split: "l = l2 \<or> l \<in> snd ` set (filter (\<lambda>entry. fst entry \<noteq> d) ?m)"
    if "(k, l) \<in> set ?m2" for k l
  proof (cases "k = d")
    case True
    with that have "(k, l) \<in> set (filter (\<lambda>entry. fst entry = d) ?m2)" by simp
    then show ?thesis by (simp add: own)
  next
    case False
    with that have "(k, l) \<in> set (filter (\<lambda>entry. fst entry \<noteq> d) ?m2)" by simp
    then have "(k, l) \<in> set (filter (\<lambda>entry. fst entry \<noteq> d) ?m)" by (simp only: others)
    then have "snd (k, l) \<in> snd ` set (filter (\<lambda>entry. fst entry \<noteq> d) ?m)" by (rule imageI)
    then show ?thesis by simp
  qed
  have later: "(spec_fires (period_frames (fps t) d) (sint (frame_counter t)) \<longrightarrow>
            l2 \<in> set (listener_calls (new_trace t t'))) \<and>
         (l1 \<noteq> l2 \<and> l1 \<notin> snd ` set (filter (\<lambda>entry. fst entry \<noteq> d) ?m) \<longrightarrow>
            l1 \<notin> set (listener_calls (new_trace t t')))"
    if t: "time_listeners t = ?m2" "HandleTime env e t = Inr t'"
      "user_data1 e = Fps_ptr" "user_data2 e = Frame_counter_ptr" for t e t'
  proof -
    have calls: "listener_calls (new_trace t t') =
        map snd (filter (\<lambda>entry. fires_at t (fst entry)) ?m2)"
      using HandleTime_calls[OF t(2,3,4)] by (simp add: t(1))
    have a: "l2 \<in> set (listener_calls (new_trace t t'))"
      if "spec_fires (period_frames (fps t) d) (sint (frame_counter t))"
    proof -
      from that mem have "(d, l2) \<in> set (filter (\<lambda>entry. fires_at t (fst entry)) ?m2)"
        by (simp add: fires_at_def)
      then have "snd (d, l2) \<in> snd ` set (filter (\<lambda>entry. fires_at t (fst entry)) ?m2)"
        by (rule imageI)
      then show ?thesis by (simp add: calls)
    qed
    have b: "l1 \<notin> set (listener_calls (new_trace t t'))"
      if "l1 \<noteq> l2 \<and> l1 \<notin> snd ` set (filter (\<lambda>entry. fst entry \<noteq> d) ?m)"
    proof
      assume "l1 \<in> set (listener_calls (new_trace t t'))"
      then obtain k where "(k, l1) \<in> set ?m2" by (auto simp: calls)
      from split[OF this] that show False by blast
    qed
    from a b show ?thesis by blast
  qed
  from m2 own others later show ?thesis by (simp add: AddTimeListener_def) blast
qed

text \<open>
  Registering 5 and then 6 at 500 ms, beside 4 at 10 ms: at frame 45 the time event calls
  4 and 6, not 5.
\<close>

theorem AddTimeListener_replaces_witness:
  "sorted_wrt (<) (map fst (time_listeners (AddTimeListener 4 10 (demo_engine\<lparr>frame_counter := 45\<rparr>)))) \<and>
   time_listeners (AddTimeListener 6 500 (AddTimeListener 5 500
      (AddTimeListener 4 10 (demo_engine\<lparr>frame_counter := 45\<rparr>)))) = [(10, 4), (500, 6)] \<and>
   (\<exists>t'. HandleTime demo_env (time_event 0x8000)
            (AddTimeListener 6 500 (AddTimeListener 5 500
               (AddTimeListener 4 10 (demo_engine\<lparr>frame_counter := 45\<rparr>)))) = Inr t' \<and>
         6 \<in> set (listener_calls (new_trace
            (AddTimeListener 6 500 (AddTimeListener 5 500
               (AddTimeListener 4 10 (demo_engine\<lparr>frame_counter := 45\<rparr>)))) t')) \<and>
         5 \<notin> set (listener_calls (new_trace
            (AddTimeListener 6 500 (AddTimeListener 5 500
               (AddTimeListener 4 10 (demo_engine\<lparr>frame_counter := 45\<rparr>)))) t')))"
proof -
  let ?s = "AddTimeListener 4 10 (demo_engine\<lparr>frame_counter := 45\<rparr>)"
  let ?s2 = "AddTimeListener 6 500 (AddTimeListener 5 500 ?s)"
  have srt: "sorted_wrt (<) (map fst (time_listeners ?s))"
    by (simp add: AddTimeListener_def demo_defs)
  have tl: "time_listeners ?s2 = [(10, 4), (500, 6)]"
    by (simp add: AddTimeListener_def demo_defs)
  have p: "user_data1 (time_event 0x8000) = Fps_ptr" "user_data2 (time_event 0x8000) = Frame_counter_ptr"
    by (simp_all add: time_event_def)
  have "\<exists>t'. HandleTime demo_env (time_event 0x8000) ?s2 = Inr t'"
    by (simp add: AddTimeListener_def demo_defs engine_defs Let_def signed_modulo_int_def
          period_frames_values)
  then obtain t' where run: "HandleTime demo_env (time_event 0x8000) ?s2 = Inr t'" ..
  have f: "spec_fires (period_frames (fps ?s2) 500) (sint (frame_counter ?s2))"
    by (simp add: AddTimeListener_def demo_defs spec_fires_def period_frames_values)
  have n: "(5::nat) \<noteq> 6 \<and> 5 \<notin> snd ` set (filter (\<lambda>entry. fst entry \<noteq> 500) (time_listeners ?s))"
    by (simp add: AddTimeListener_def demo_defs)
  from AddTimeListener_replaces[OF srt refl, of 6 500 5 demo_env] run p f n
  have "6 \<in> set (listener_calls (new_trace ?s2 t'))" "5 \<notin> set (listener_calls (new_trace ?s2 t'))"
    by blast+
  with srt tl run show ?thesis by blast
qed

lemma range_for_temporary:
  "i + n \<le> length v \<Longrightarrow>
   range_for n i (\<lambda>_. Inr v) (\<lambda>_. 0) body s = for_each (take n (drop i v)) body s"
proof (induction n arbitrary: i s)
  case 0
  then show ?case by simp
next
  case (Suc n)
  then have i: "i < length v" and rest: "Suc i + n \<le> length v" by simp_all
  have "take (Suc n) (drop i v) = v ! i # take n (drop (Suc i) v)"
    using i by (simp add: Cons_nth_drop_Suc[symmetric])
  with i Suc.IH[OF rest] show ?case by (simp split: sum.splits)
qed

lemma range_for_vec_temporary:
  "range_for_vec (\<lambda>_. Inr v) (\<lambda>_. 0) body s = for_each v body s"
  by (simp add: range_for_vec_def range_for_temporary)

lemma DetectCollision_snapshots:
  "DetectCollision env s =
     (case current_level_GetSprites s of
        Inl e \<Rightarrow> Inl e
      | Inr outer \<Rightarrow>
          for_each outer
            (\<lambda>sprite s1.
               case current_level_GetSprites s1 of
                 Inl e \<Rightarrow> Inl e
               | Inr inner \<Rightarrow> for_each inner (collision_test env sprite) s1)
            s)"
  by (simp add: DetectCollision_def range_for_vec_temporary cong: sum.case_cong)

lemma for_each_error:
  assumes "for_each xs body s = Inl e"
  shows "\<exists>x s1. x \<in> set xs \<and> body x s1 = Inl e"
  using assms
proof (induction xs arbitrary: s)
  case Nil
  then show ?case by simp
next
  case (Cons x xs)
  show ?case
  proof (cases "body x s")
    case (Inl e')
    with Cons.prems have "body x s = Inl e" by simp
    then show ?thesis by auto
  next
    case (Inr m)
    with Cons.prems have "for_each xs body m = Inl e" by simp
    from Cons.IH[OF this] show ?thesis by auto
  qed
qed

lemma exec_cmd_error: "exec_cmd c s \<noteq> Inl InvalidIterator"
  by (cases c)
     (auto simp: AddSprite_def RemoveSprite_def delete_sprite_def Sprite_SetX_def Sprite_SetY_def
        Let_def split: option.splits if_splits sum.splits)

lemma exec_cmds_error: "exec_cmds cs s \<noteq> Inl InvalidIterator"
proof (induction cs arbitrary: s)
  case Nil
  then show ?case by simp
next
  case (Cons c cs)
  then show ?case using exec_cmd_error[of c s] by (auto split: sum.splits)
qed

lemma collision_test_error: "collision_test env a b s \<noteq> Inl InvalidIterator"
  using exec_cmds_error
  by (auto simp: collision_test_def Sprite_Contains_def call_collision_listener_def Let_def
        split: sum.splits option.splits if_splits)

lemma current_level_GetSprites_error: "current_level_GetSprites s \<noteq> Inl InvalidIterator"
  by (auto simp: current_level_GetSprites_def GetSprites_def Level_sprites_def split: option.splits)

text \<open>No loop of the collision pass meets an invalidated iterator.\<close>

lemma DetectCollision_no_invalid_iterator: "DetectCollision env s \<noteq> Inl InvalidIterator"
proof
  assume bad: "DetectCollision env s = Inl InvalidIterator"
  note eq = DetectCollision_snapshots[of env s]
  show False
  proof (cases "current_level_GetSprites s")
    case (Inl e)
    with bad eq have "current_level_GetSprites s = Inl InvalidIterator" by simp
    with current_level_GetSprites_error show False by blast
  next
    case (Inr outer)
    with bad eq have "for_each outer
          (\<lambda>sprite s1.
             case current_level_GetSprites s1 of
               Inl e \<Rightarrow> Inl e
             | Inr inner \<Rightarrow> for_each inner (collision_test env sprite) s1)
          s = Inl InvalidIterator" by simp
    from for_each_error[OF this] obtain a s1 where
      inner: "(case current_level_GetSprites s1 of
               Inl e \<Rightarrow> Inl e
             | Inr inner \<Rightarrow> for_each inner (collision_test env a) s1) = Inl InvalidIterator"
      by blast
    show False
    proof (cases "current_level_GetSprites s1")
      case (Inl e)
      with inner have "current_level_GetSprites s1 = Inl InvalidIterator" by simp
      with current_level_GetSprites_error show False by blast
    next
      case (Inr xs)
      with inner have "for_each xs (collision_test env a) s1 = Inl InvalidIterator" by simp
      from for_each_error[OF this] collision_test_error show False by blast
    qed
  qed
qed

text \<open>
  A listener that adds a sprite does no harm. It adds sprite 3 when it is first called,
  for the pair (1, 2). The inner loop then running and the outer loop keep their lists
  [1, 2]; the inner loop started afterwards, for sprite 2, runs over [1, 2, 3].
\<close>

lemma DetectCollision_adding_listener:
  "\<exists>s'. DetectCollision adder_env adder_engine = Inr s' \<and>
        collisions (new_trace adder_engine s') = [(9, 1, 2), (9, 2, 1), (9, 2, 3)] \<and>
        Level_sprites 1 s' = Inr [1, 2, 3]"
  by (simp add: DetectCollision_snapshots adder_env_def adder_engine_def demo_defs
        current_level_GetSprites_def GetSprites_def Level_sprites_def collision_test_def
        Sprite_Contains_def call_collision_listener_def AddSprite_def Window_LoadSprite_def
        new_trace_def Let_def)

text \<open>
  Claim C10, at a failing input. \<^verbatim>\<open>GetSprites\<close> returns the vector by value, so the
  loops of \<^verbatim>\<open>DetectCollision\<close> run over copies that no listener can change. But the
  copies hold pointers, and \<^verbatim>\<open>RemoveSprite\<close> destroys the object it removes. Level 1
  holds the overlapping sprites 1 and 2, and the collision listener removes the second
  sprite of the pair it is called with. The inner loop for sprite 1 calls the listener
  for the pair (1, 2) and returns; sprite 2 is then destroyed and the level holds [1].
  The outer loop takes sprite 2 from its copy, and the test of the pair (2, 1) calls
  \<^verbatim>\<open>Contains\<close> on the destroyed object. So the pass, and the iteration of the main loop
  that runs it, end in a use after free.
\<close>

theorem DetectCollision_removal:
  "current_level_GetSprites demo_engine = Inr [1, 2] \<and>
   (\<exists>s1. range_for_vec (\<lambda>_. Inr [1, 2]) (\<lambda>_. 0)
            (\<lambda>other_sprite. collision_test collision_remover_env 1 other_sprite) demo_engine = Inr s1 \<and>
         collisions (new_trace demo_engine s1) = [(9, 1, 2)] \<and>
         sprite_heap s1 2 = None \<and>
         current_level_GetSprites s1 = Inr [1] \<and>
         collision_test collision_remover_env 2 1 s1 = Inl UseAfterFree) \<and>
   DetectCollision collision_remover_env demo_engine = Inl UseAfterFree \<and>
   Run_iteration collision_remover_env demo_engine = Inl UseAfterFree"
  by (simp add: collision_remover_env_def demo_defs engine_defs RemoveSprite_def
        delete_sprite_def RemoveSprite_loop.simps erase_at_def Let_def)

text \<open>
  Claim C8, at a failing input. Level 1 holds sprites 1 and 2, and the handler of sprite
  1 removes sprite 2 from the level. \<^verbatim>\<open>PropagateEventToSprites\<close> delivers the event to
  sprite 1, whose handler erases from the vector that the loop is running over: the
  vector shrinks to one element and the iterators of the loop, whose end position is
  still 2, are invalidated. The iteration of the main loop that polls the event fails in
  the same way.
\<close>

theorem PropagateEventToSprites_removal:
  "PropagateEventToSprites remover_env 1 quit_event demo_engine = Inl InvalidIterator \<and>
   Run_iteration remover_env (demo_engine\<lparr>queue := [quit_event]\<rparr>) = Inl InvalidIterator"
  by (simp add: remover_env_def demo_defs engine_defs RemoveSprite_def delete_sprite_def
        RemoveSprite_loop.simps erase_at_def Let_def)

text \<open>
  A handler that adds a sprite to the level whose vector the loop is running over
  invalidates the iterators of the loop as well.
\<close>

lemma PropagateEventToSprites_addition:
  "PropagateEventToSprites sprite_adder_env 1 quit_event adder_engine = Inl InvalidIterator"
  by (simp add: sprite_adder_env_def adder_engine_def demo_defs engine_defs AddSprite_def
        Window_LoadSprite_def Let_def)

lemma collisions_append: "collisions (a @ b) = collisions a @ collisions b"
  by (induction a rule: collisions.induct) simp_all

lemma exec_cmds_quiet:
  "list_all quiet cs \<Longrightarrow>
   \<exists>s'. exec_cmds cs s = Inr s' \<and> quiet_step s s' \<and> collisions (trace s') = collisions (trace s)"
proof (induction cs arbitrary: s)
  case Nil
  then show ?case by (simp add: quiet_step_def)
next
  case (Cons c cs)
  then have c: "c = Quit_call" and rest: "list_all quiet cs" by (cases c; simp)+
  from Cons.IH[OF rest, of "Quit s"] obtain s' where
    s': "exec_cmds cs (Quit s) = Inr s'" "quiet_step (Quit s) s'"
        "collisions (trace s') = collisions (trace (Quit s))" by blast
  have "quiet_step s s'" using s'(2) by (simp add: quiet_step_def Quit_def record_obs_def)
  moreover have "collisions (trace s') = collisions (trace s)"
    using s'(3) by (simp add: Quit_def record_obs_def collisions_append)
  ultimately show ?case using s'(1) c by simp
qed

lemma overlaps_quiet_step: "quiet_step s s' \<Longrightarrow> overlaps env s' a b = overlaps env s a b"
  by (simp add: overlaps_def quiet_step_def cong: option.case_cong)

lemma quiet_step_refl: "quiet_step s s"
  by (simp add: quiet_step_def)

lemma quiet_step_trans: "quiet_step a b \<Longrightarrow> quiet_step b c \<Longrightarrow> quiet_step a c"
  by (simp add: quiet_step_def)

lemma collision_test_quiet:
  assumes code: "\<And>a b st. list_all quiet (collision_listener_code env L a b st)"
    and L: "current_collision_listener s = L" "L \<noteq> 0"
    and alive: "sprite_heap s a \<noteq> None" "sprite_heap s b \<noteq> None"
  shows "\<exists>s'. collision_test env a b s = Inr s' \<and> quiet_step s s' \<and>
     collisions (trace s') =
       collisions (trace s) @ (if a \<noteq> b \<and> overlaps env s a b then [(L, a, b)] else [])"
proof (cases "a \<noteq> b \<and> overlaps env s a b")
  case False
  then have "collision_test env a b s = Inr s"
    using alive by (auto simp: collision_test_def Sprite_Contains_def overlaps_def)
  with False show ?thesis by (simp add: quiet_step_refl)
next
  case True
  let ?s1 = "record_obs (Obs_collision L a b) s"
  from True alive L have ct: "collision_test env a b s =
      exec_cmds (collision_listener_code env L a b ?s1) ?s1"
    by (auto simp: collision_test_def Sprite_Contains_def overlaps_def call_collision_listener_def
          Let_def)
  from exec_cmds_quiet[OF code, of a b ?s1 ?s1] obtain s' where
    s': "exec_cmds (collision_listener_code env L a b ?s1) ?s1 = Inr s'" "quiet_step ?s1 s'"
        "collisions (trace s') = collisions (trace ?s1)" by blast
  have "quiet_step s s'" using s'(2) by (simp add: quiet_step_def record_obs_def)
  moreover have "collisions (trace s') = collisions (trace s) @ [(L, a, b)]"
    using s'(3) by (simp add: record_obs_def collisions_append)
  ultimately show ?thesis using ct s'(1) True by simp
qed

lemma inner_loop_quiet:
  assumes code: "\<And>a b st. list_all quiet (collision_listener_code env L a b st)"
    and L: "current_collision_listener s = L" "L \<noteq> 0"
    and alive: "sprite_heap s a \<noteq> None" "\<forall>b\<in>set xs. sprite_heap s b \<noteq> None"
  shows "\<exists>s'. for_each xs (collision_test env a) s = Inr s' \<and> quiet_step s s' \<and>
     collisions (trace s') =
       collisions (trace s) @
       map (\<lambda>b. (L, a, b)) (filter (\<lambda>b. a \<noteq> b \<and> overlaps env s a b) xs)"
  using L alive
proof (induction xs arbitrary: s)
  case Nil
  then show ?case by (simp add: quiet_step_refl)
next
  case (Cons b xs)
  from Cons.prems have b: "sprite_heap s b \<noteq> None" by simp
  from collision_test_quiet[OF code Cons.prems(1,2,3) b] obtain m where
    m: "collision_test env a b s = Inr m" "quiet_step s m"
       "collisions (trace m) =
          collisions (trace s) @ (if a \<noteq> b \<and> overlaps env s a b then [(L, a, b)] else [])"
    by blast
  have pre: "current_collision_listener m = L" "sprite_heap m a \<noteq> None"
    "\<forall>b\<in>set xs. sprite_heap m b \<noteq> None"
    using m(2) Cons.prems by (simp_all add: quiet_step_def)
  from Cons.IH[OF pre(1) Cons.prems(2) pre(2,3)] obtain s' where
    s': "for_each xs (collision_test env a) m = Inr s'" "quiet_step m s'"
        "collisions (trace s') =
           collisions (trace m) @
           map (\<lambda>b. (L, a, b)) (filter (\<lambda>b. a \<noteq> b \<and> overlaps env m a b) xs)"
    by blast
  have "quiet_step s s'" using m(2) s'(2) by (rule quiet_step_trans)
  moreover have "collisions (trace s') =
       collisions (trace s) @
       map (\<lambda>b. (L, a, b)) (filter (\<lambda>b. a \<noteq> b \<and> overlaps env s a b) (b # xs))"
    using s'(3) m(3) by (simp add: overlaps_quiet_step[OF m(2)])
  ultimately show ?case using m(1) s'(1) by simp
qed

lemma outer_loop_quiet:
  assumes code: "\<And>a b st. list_all quiet (collision_listener_code env L a b st)"
    and L: "current_collision_listener s = L" "L \<noteq> 0"
    and lv: "current_level s = Some l" "level_heap s l = Some lv"
    and alive: "\<forall>b\<in>set (sprites lv). sprite_heap s b \<noteq> None" "\<forall>a\<in>set ys. sprite_heap s a \<noteq> None"
  shows "\<exists>s'. for_each ys
            (\<lambda>sprite s1.
               case current_level_GetSprites s1 of
                 Inl e \<Rightarrow> Inl e
               | Inr inner \<Rightarrow> for_each inner (collision_test env sprite) s1) s = Inr s' \<and>
     quiet_step s s' \<and>
     collisions (trace s') =
       collisions (trace s) @
       concat (map (\<lambda>a. map (\<lambda>b. (L, a, b))
                            (filter (\<lambda>b. a \<noteq> b \<and> overlaps env s a b) (sprites lv))) ys)"
  using L lv alive
proof (induction ys arbitrary: s)
  case Nil
  then show ?case by (simp add: quiet_step_refl)
next
  case (Cons a ys)
  have gs: "current_level_GetSprites s = Inr (sprites lv)"
    using Cons.prems by (simp add: current_level_GetSprites_def GetSprites_def Level_sprites_def)
  from Cons.prems have a: "sprite_heap s a \<noteq> None" by simp
  from inner_loop_quiet[OF code Cons.prems(1,2) a Cons.prems(5)] obtain m where
    m: "for_each (sprites lv) (collision_test env a) s = Inr m" "quiet_step s m"
       "collisions (trace m) =
          collisions (trace s) @
          map (\<lambda>b. (L, a, b)) (filter (\<lambda>b. a \<noteq> b \<and> overlaps env s a b) (sprites lv))"
    by blast
  have pre: "current_collision_listener m = L" "current_level m = Some l" "level_heap m l = Some lv"
    "\<forall>b\<in>set (sprites lv). sprite_heap m b \<noteq> None" "\<forall>a\<in>set ys. sprite_heap m a \<noteq> None"
    using m(2) Cons.prems by (simp_all add: quiet_step_def)
  from Cons.IH[OF pre(1) Cons.prems(2) pre(2,3,4,5)] obtain s' where
    s': "for_each ys
            (\<lambda>sprite s1.
               case current_level_GetSprites s1 of
                 Inl e \<Rightarrow> Inl e
               | Inr inner \<Rightarrow> for_each inner (collision_test env sprite) s1) m = Inr s'"
        "quiet_step m s'"
        "collisions (trace s') =
           collisions (trace m) @
           concat (map (\<lambda>a. map (\<lambda>b. (L, a, b))
                            (filter (\<lambda>b. a \<noteq> b \<and> overlaps env m a b) (sprites lv))) ys)"
    by blast
  have "quiet_step s s'" using m(2) s'(2) by (rule quiet_step_trans)
  moreover have "collisions (trace s') =
       collisions (trace s) @
       concat (map (\<lambda>a. map (\<lambda>b. (L, a, b))
                            (filter (\<lambda>b. a \<noteq> b \<and> overlaps env s a b) (sprites lv))) (a # ys))"
    using s'(3) m(3) by (simp add: overlaps_quiet_step[OF m(2)])
  ultimately show ?case using gs m(1) s'(1) by simp
qed

lemma count_list_distinct: "distinct xs \<Longrightarrow> count_list xs x = (if x \<in> set xs then 1 else 0)"
  by (induction xs) auto

lemma count_list_pairs_row:
  "count_list (map (\<lambda>b. (L, a, b)) (filter P xs)) (L', a', b') =
     (if L' = L \<and> a' = a \<and> P b' then count_list xs b' else 0)"
  by (induction xs) auto

lemma count_list_pairs:
  "count_list (concat (map (\<lambda>a. map (\<lambda>b. (L, a, b)) (filter (P a) xs)) ys)) (L', a', b') =
     (if L' = L \<and> P a' b' then count_list ys a' * count_list xs b' else 0)"
  by (induction ys) (auto simp: count_list_pairs_row)

text \<open>
  Claim C1. Take a collision pass on a level whose sprites all exist, with a listener
  \<open>L\<close> registered that changes neither levels, sprites nor the listener slot. The pass
  returns, and the calls of the listener it has made are the ordered pairs \<open>(a, b)\<close> of
  the sequence with \<open>a \<noteq> b\<close> whose boundaries overlap (\<^verbatim>\<open>a->Contains(b)\<close>), in the
  order of the two loops: a pair is reported as often as \<open>a\<close> occurs in the sequence times
  as often as \<open>b\<close> does. So when the sequence holds each sprite once, each overlapping
  pair is reported exactly once, \<open>(a, b)\<close> and \<open>(b, a)\<close> separately, and no other pair
  and no other listener is called.
\<close>

theorem DetectCollision_reports_overlaps:
  assumes code: "\<forall>a b st. list_all quiet (collision_listener_code env L a b st)"
    and L: "current_collision_listener s = L" "L \<noteq> 0"
    and lv: "current_level s = Some l" "level_heap s l = Some lv"
    and alive: "\<forall>b\<in>set (sprites lv). sprite_heap s b \<noteq> None"
  shows "\<exists>s'. DetectCollision env s = Inr s' \<and>
     collisions (new_trace s s') =
       concat (map (\<lambda>a. map (\<lambda>b. (L, a, b))
                            (filter (\<lambda>b. a \<noteq> b \<and> overlaps env s a b) (sprites lv)))
                 (sprites lv)) \<and>
     (\<forall>L' a b. count_list (collisions (new_trace s s')) (L', a, b) =
        (if L' = L \<and> a \<noteq> b \<and> overlaps env s a b
         then count_list (sprites lv) a * count_list (sprites lv) b else 0)) \<and>
     (distinct (sprites lv) \<longrightarrow>
        (\<forall>L' a b. count_list (collisions (new_trace s s')) (L', a, b) =
           (if L' = L \<and> a \<in> set (sprites lv) \<and> b \<in> set (sprites lv) \<and> a \<noteq> b \<and>
               overlaps env s a b
            then 1 else 0)))"
proof -
  let ?pairs = "concat (map (\<lambda>a. map (\<lambda>b. (L, a, b))
                            (filter (\<lambda>b. a \<noteq> b \<and> overlaps env s a b) (sprites lv)))
                 (sprites lv))"
  have gs: "current_level_GetSprites s = Inr (sprites lv)"
    using lv by (simp add: current_level_GetSprites_def GetSprites_def Level_sprites_def)
  from code have code': "\<And>a b st. list_all quiet (collision_listener_code env L a b st)" by simp
  from outer_loop_quiet[OF code' L lv alive alive] obtain s' where
    run: "for_each (sprites lv)
            (\<lambda>sprite s1.
               case current_level_GetSprites s1 of
                 Inl e \<Rightarrow> Inl e
               | Inr inner \<Rightarrow> for_each inner (collision_test env sprite) s1) s = Inr s'"
    and tr: "collisions (trace s') = collisions (trace s) @ ?pairs"
    by blast
  have dc: "DetectCollision env s = Inr s'"
    using run gs by (simp add: DetectCollision_snapshots)
  have "trace s' = trace s @ new_trace s s'"
    by (rule dispatch_step_new_trace(1)[OF DetectCollision_dispatch_step[OF dc]])
  then have "collisions (trace s') = collisions (trace s) @ collisions (new_trace s s')"
    by (metis collisions_append)
  with tr have new: "collisions (new_trace s s') = ?pairs" by simp
  have cnt: "count_list ?pairs (L', a, b) =
        (if L' = L \<and> a \<noteq> b \<and> overlaps env s a b
         then count_list (sprites lv) a * count_list (sprites lv) b else 0)" for L' a b
    using count_list_pairs[of L "\<lambda>a b. a \<noteq> b \<and> overlaps env s a b" "sprites lv" "sprites lv" L' a b]
    by simp
  have once: "count_list ?pairs (L', a, b) =
        (if L' = L \<and> a \<in> set (sprites lv) \<and> b \<in> set (sprites lv) \<and> a \<noteq> b \<and> overlaps env s a b
         then 1 else 0)" if "distinct (sprites lv)" for L' a b
    by (simp add: cnt count_list_distinct[OF that])
  from dc new cnt once show ?thesis by simp
qed

text \<open>
  Sprite 1 at (0, 0) and sprite 2 at (5, 5), both 10 by 10: the listener is called for
  (1, 2) and for (2, 1), once each, and for no sprite with itself.
\<close>

theorem DetectCollision_reports_overlaps_witness:
  "(\<forall>a b st. list_all quiet (collision_listener_code demo_env 9 a b st)) \<and>
   current_collision_listener demo_engine = 9 \<and> current_level demo_engine = Some 1 \<and>
   level_heap demo_engine 1 = Some demo_level \<and> distinct (sprites demo_level) \<and>
   sprite_heap demo_engine 1 \<noteq> None \<and> sprite_heap demo_engine 2 \<noteq> None \<and>
   (\<exists>s'. DetectCollision demo_env demo_engine = Inr s' \<and>
         collisions (new_trace demo_engine s') = [(9, 1, 2), (9, 2, 1)] \<and>
         count_list (collisions (new_trace demo_engine s')) (9, 1, 2) = 1 \<and>
         count_list (collisions (new_trace demo_engine s')) (9, 2, 1) = 1 \<and>
         count_list (collisions (new_trace demo_engine s')) (9, 1, 1) = 0)"
proof -
  have code: "\<forall>a b st. list_all quiet (collision_listener_code demo_env 9 a b st)"
    by (simp add: demo_env_def)
  have L: "current_collision_listener demo_engine = 9" "(9::nat) \<noteq> 0"
    and lv: "current_level demo_engine = Some 1" "level_heap demo_engine 1 = Some demo_level"
    and dist: "distinct (sprites demo_level)"
    and al: "sprite_heap demo_engine 1 \<noteq> None" "sprite_heap demo_engine 2 \<noteq> None"
    by (simp_all add: demo_defs)
  have alive: "\<forall>b\<in>set (sprites demo_level). sprite_heap demo_engine b \<noteq> None"
    using al by (simp add: demo_level_def)
  have ov: "overlaps demo_env demo_engine 1 2" "overlaps demo_env demo_engine 2 1"
    by (simp_all add: overlaps_def demo_defs)
  from DetectCollision_reports_overlaps[OF code L lv alive] dist obtain s' where
    run: "DetectCollision demo_env demo_engine = Inr s'"
    and calls: "collisions (new_trace demo_engine s') =
       concat (map (\<lambda>a. map (\<lambda>b. (9, a, b))
                            (filter (\<lambda>b. a \<noteq> b \<and> overlaps demo_env demo_engine a b) (sprites demo_level)))
                 (sprites demo_level))"
    and cnt: "\<forall>L' a b. count_list (collisions (new_trace demo_engine s')) (L', a, b) =
        (if L' = 9 \<and> a \<in> set (sprites demo_level) \<and> b \<in> set (sprites demo_level) \<and> a \<noteq> b \<and>
            overlaps demo_env demo_engine a b
         then 1 else 0)"
    by blast
  have c1: "collisions (new_trace demo_engine s') = [(9, 1, 2), (9, 2, 1)]"
    using ov by (simp add: calls demo_level_def)
  have c2: "count_list (collisions (new_trace demo_engine s')) (9, 1, 2) = 1"
    "count_list (collisions (new_trace demo_engine s')) (9, 2, 1) = 1"
    "count_list (collisions (new_trace demo_engine s')) (9, 1, 1) = 0"
    using ov by (simp_all add: cnt demo_level_def)
  from code L(1) lv dist al run c1 c2 show ?thesis by blast
qed

lemma deliveries_append: "deliveries (a @ b) = deliveries a @ deliveries b"
  by (induction a rule: deliveries.induct) simp_all

lemma deliveries_cmd_obs: "list_all cmd_obs tr \<Longrightarrow> deliveries tr = []"
  by (induction tr rule: deliveries.induct) simp_all

lemma exec_cmd_level_heap:
  "\<not> changes_level c \<Longrightarrow> exec_cmd c s = Inr s' \<Longrightarrow> level_heap s' = level_heap s"
  by (cases c)
     (auto simp: Quit_def record_obs_def SetCollisionListener_def SetCurrentLevel_def
        Window_LoadLevel_def Sprite_SetX_def Sprite_SetY_def split: option.splits)

lemma exec_cmds_level_heap:
  "list_all (\<lambda>c. \<not> changes_level c) cs \<Longrightarrow> exec_cmds cs s = Inr s' \<Longrightarrow>
   level_heap s' = level_heap s"
proof (induction cs arbitrary: s)
  case Nil
  then show ?case by simp
next
  case (Cons c cs)
  from Cons.prems(2) obtain m where m: "exec_cmd c s = Inr m" "exec_cmds cs m = Inr s'"
    by (auto split: sum.splits)
  from Cons.prems(1) have c: "\<not> changes_level c" and cs: "list_all (\<lambda>c. \<not> changes_level c) cs"
    by simp_all
  from exec_cmd_level_heap[OF c m(1)] Cons.IH[OF cs m(2)] show ?case by simp
qed

lemma Sprite_DelegateEvent_delivers:
  assumes "Sprite_DelegateEvent env sp e s = Inr s'"
  shows "deliveries (trace s') = deliveries (trace s) @ [(sp, e)]"
proof -
  from assms have r: "exec_cmds (Sprite_DelegateEvent_code env sp e (record_obs (Obs_Sprite_DelegateEvent sp e) s))
      (record_obs (Obs_Sprite_DelegateEvent sp e) s) = Inr s'"
    by (auto simp: Sprite_DelegateEvent_def Let_def split: if_splits)
  from exec_cmds_trace[OF r] obtain tr where
    "trace s' = trace s @ [Obs_Sprite_DelegateEvent sp e] @ tr" "list_all cmd_obs tr"
    by (auto simp: record_obs_def)
  then show ?thesis by (simp add: deliveries_append deliveries_cmd_obs)
qed

lemma Sprite_DelegateEvent_level_heap:
  assumes "Sprite_DelegateEvent env sp e s = Inr s'"
    and "\<forall>sp st. list_all (\<lambda>c. \<not> changes_level c) (Sprite_DelegateEvent_code env sp e st)"
  shows "level_heap s' = level_heap s"
proof -
  let ?s1 = "record_obs (Obs_Sprite_DelegateEvent sp e) s"
  from assms(1) have r: "exec_cmds (Sprite_DelegateEvent_code env sp e ?s1) ?s1 = Inr s'"
    by (auto simp: Sprite_DelegateEvent_def Let_def split: if_splits)
  from assms(2) have "list_all (\<lambda>c. \<not> changes_level c) (Sprite_DelegateEvent_code env sp e ?s1)"
    by blast
  from exec_cmds_level_heap[OF this r] show ?thesis by (simp add: record_obs_def)
qed

lemma range_for_stable:
  assumes keep: "\<And>x a b. body x a = Inr b \<Longrightarrow> vec b = vec a \<and> cnt b = cnt a"
  shows "vec s = Inr v \<Longrightarrow> i + n \<le> length v \<Longrightarrow>
         range_for n i vec cnt body s = for_each (take n (drop i v)) body s"
proof (induction n arbitrary: i s)
  case 0
  then show ?case by simp
next
  case (Suc n)
  then have i: "i < length v" and rest: "Suc i + n \<le> length v" by simp_all
  have tk: "take (Suc n) (drop i v) = v ! i # take n (drop (Suc i) v)"
    using i by (simp add: Cons_nth_drop_Suc[symmetric])
  show ?case
  proof (cases "body (v ! i) s")
    case (Inl e)
    with Suc.prems(1) i tk show ?thesis by simp
  next
    case (Inr m)
    from keep[OF Inr] Suc.prems(1) have "vec m = Inr v" and c: "cnt m = cnt s" by simp_all
    from Suc.IH[OF this(1) rest] Inr Suc.prems(1) i tk c show ?thesis by simp
  qed
qed

lemma PropagateEventToSprites_stable:
  assumes "\<forall>sp st. list_all (\<lambda>c. \<not> changes_level c) (Sprite_DelegateEvent_code env sp e st)"
    and "level_heap s l = Some lv"
  shows "PropagateEventToSprites env l e s =
         for_each (sprites lv) (\<lambda>sprite. Sprite_DelegateEvent env sprite e) s"
proof -
  have keep: "Level_sprites l b = Level_sprites l a \<and>
              Level_modifications l b = Level_modifications l a"
    if "Sprite_DelegateEvent env x e a = Inr b" for x a b
    using Sprite_DelegateEvent_level_heap[OF that assms(1)]
    by (simp add: Level_sprites_def Level_modifications_def)
  have v: "Level_sprites l s = Inr (sprites lv)" using assms(2) by (simp add: Level_sprites_def)
  have "range_for (length (sprites lv)) 0 (Level_sprites l) (Level_modifications l)
          (\<lambda>sprite. Sprite_DelegateEvent env sprite e) s =
        for_each (take (length (sprites lv)) (drop 0 (sprites lv)))
          (\<lambda>sprite. Sprite_DelegateEvent env sprite e) s"
    by (rule range_for_stable[where vec = "Level_sprites l" and cnt = "Level_modifications l",
          OF keep v]) simp_all
  then show ?thesis by (simp add: PropagateEventToSprites_def range_for_vec_def v)
qed

lemma for_each_delivers:
  "for_each xs (\<lambda>sprite. Sprite_DelegateEvent env sprite e) s = Inr s' \<Longrightarrow>
   deliveries (trace s') = deliveries (trace s) @ map (\<lambda>sp. (sp, e)) xs"
proof (induction xs arbitrary: s)
  case Nil
  then show ?case by simp
next
  case (Cons x xs)
  then obtain m where m: "Sprite_DelegateEvent env x e s = Inr m"
    "for_each xs (\<lambda>sprite. Sprite_DelegateEvent env sprite e) m = Inr s'"
    by (auto split: sum.splits)
  from Sprite_DelegateEvent_delivers[OF m(1)] Cons.IH[OF m(2)] show ?case by simp
qed

lemma call_event_listener_deliveries:
  assumes "call_event_listener env l s = Inr s'"
  shows "deliveries (trace s') = deliveries (trace s)"
proof -
  from assms have r: "exec_cmds (event_listener_code env l (record_obs (Obs_listener l) s))
      (record_obs (Obs_listener l) s) = Inr s'"
    by (auto simp: call_event_listener_def Let_def split: if_splits)
  from exec_cmds_trace[OF r] obtain tr where
    "trace s' = trace s @ [Obs_listener l] @ tr" "list_all cmd_obs tr"
    by (auto simp: record_obs_def)
  then show ?thesis by (simp add: deliveries_append deliveries_cmd_obs)
qed

lemma for_each_deliveries:
  assumes "\<And>x a b. x \<in> set xs \<Longrightarrow> body x a = Inr b \<Longrightarrow> deliveries (trace b) = deliveries (trace a)"
    and "for_each xs body s = Inr s'"
  shows "deliveries (trace s') = deliveries (trace s)"
proof (rule for_each_rel[where R = "\<lambda>a b. deliveries (trace b) = deliveries (trace a)", OF _ _ _ assms(2)])
  show "\<And>s. deliveries (trace s) = deliveries (trace s)" by simp
  show "\<And>a b c. deliveries (trace b) = deliveries (trace a) \<Longrightarrow>
      deliveries (trace c) = deliveries (trace b) \<Longrightarrow> deliveries (trace c) = deliveries (trace a)"
    by simp
  show "\<And>x a b. x \<in> set xs \<Longrightarrow> body x a = Inr b \<Longrightarrow> deliveries (trace b) = deliveries (trace a)"
    by (rule assms(1))
qed

lemma route_event_deliveries:
  assumes "route_event env e s = Inr s'"
  shows "deliveries (trace s') = deliveries (trace s)"
proof -
  have he: "deliveries (trace b) = deliveries (trace a)"
    if "HandleEvent env e m a = Inr b" for m a b
    by (rule for_each_deliveries[OF _ that[unfolded HandleEvent_def]])
       (auto simp: HandleEvent_entry_def split: if_splits dest: call_event_listener_deliveries)
  have ht: "deliveries (trace b) = deliveries (trace a)"
    if "HandleTime env e a = Inr b" for a b
    by (rule for_each_deliveries[OF _ that[unfolded HandleTime_def]])
       (auto simp: HandleTime_entry_def Let_def split: if_splits sum.splits
          dest: call_event_listener_deliveries)
  from assms show ?thesis
    by (auto simp: route_event_def Quit_def record_obs_def deliveries_append split: if_splits
          dest: he ht)
qed

text \<open>
  Claim C7. Whatever the type of the event, a \<^verbatim>\<open>DelegateEvent\<close> that returns has first
  gone through the routing by type and has then passed the event to
  \<^verbatim>\<open>PropagateEventToSprites\<close> of the level that is current after the routing. When no
  sprite handler adds or removes sprites, the event has been handed to every sprite of
  that level, once each and in the order of the sequence, and to nothing else.
\<close>

theorem DelegateEvent_propagates:
  assumes "DelegateEvent env e s = Inr s'"
  shows "\<exists>s1 l lv.
     route_event env e s = Inr s1 \<and> current_level s1 = Some l \<and> level_heap s1 l = Some lv \<and>
     PropagateEventToSprites env l e s1 = Inr s' \<and>
     ((\<forall>sp st. list_all (\<lambda>c. \<not> changes_level c) (Sprite_DelegateEvent_code env sp e st)) \<longrightarrow>
        deliveries (new_trace s s') = map (\<lambda>sp. (sp, e)) (sprites lv))"
proof -
  from assms obtain s1 l where r: "route_event env e s = Inr s1" "current_level s1 = Some l"
    "PropagateEventToSprites env l e s1 = Inr s'"
    by (auto simp: DelegateEvent_def split: sum.splits option.splits)
  from r(3) obtain lv where lv: "level_heap s1 l = Some lv"
    by (auto simp: PropagateEventToSprites_def range_for_vec_def Level_sprites_def
          split: option.splits)
  have "deliveries (new_trace s s') = map (\<lambda>sp. (sp, e)) (sprites lv)"
    if safe: "\<forall>sp st. list_all (\<lambda>c. \<not> changes_level c) (Sprite_DelegateEvent_code env sp e st)"
  proof -
    from r(3) have "for_each (sprites lv) (\<lambda>sprite. Sprite_DelegateEvent env sprite e) s1 = Inr s'"
      by (simp add: PropagateEventToSprites_stable[OF safe lv])
    from for_each_delivers[OF this] route_event_deliveries[OF r(1)]
    have d: "deliveries (trace s') = deliveries (trace s) @ map (\<lambda>sp. (sp, e)) (sprites lv)"
      by simp
    have "trace s' = trace s @ new_trace s s'"
      by (rule dispatch_step_new_trace(1)[OF DelegateEvent_dispatch_step[OF assms]])
    then have "deliveries (trace s') = deliveries (trace s) @ deliveries (new_trace s s')"
      by (metis deliveries_append)
    with d show ?thesis by simp
  qed
  with r lv show ?thesis by blast
qed

text \<open>
  A quit event and a window event, which no branch of the routing handles, both reach
  sprites 1 and 2 of the concrete engine.
\<close>

theorem DelegateEvent_propagates_witness:
  "(\<forall>sp st. list_all (\<lambda>c. \<not> changes_level c) (Sprite_DelegateEvent_code demo_env sp quit_event st)) \<and>
   (\<forall>sp st. list_all (\<lambda>c. \<not> changes_level c) (Sprite_DelegateEvent_code demo_env sp window_event st)) \<and>
   (\<exists>s'. DelegateEvent demo_env quit_event demo_engine = Inr s' \<and>
         deliveries (new_trace demo_engine s') = [(1, quit_event), (2, quit_event)]) \<and>
   (\<exists>s'. DelegateEvent demo_env window_event demo_engine = Inr s' \<and>
         deliveries (new_trace demo_engine s') = [(1, window_event), (2, window_event)])"
proof -
  have safe: "\<forall>sp st. list_all (\<lambda>c. \<not> changes_level c) (Sprite_DelegateEvent_code demo_env sp ev st)"
    for ev by (simp add: demo_env_def)
  have run: "\<exists>s'. DelegateEvent demo_env ev demo_engine = Inr s' \<and>
         deliveries (new_trace demo_engine s') = [(1, ev), (2, ev)]"
    if ex: "\<exists>s'. DelegateEvent demo_env ev demo_engine = Inr s'" for ev
  proof -
    from ex obtain s' where s': "DelegateEvent demo_env ev demo_engine = Inr s'" ..
    from DelegateEvent_propagates[OF s'] safe[of ev] obtain s1 l lv where
      a: "route_event demo_env ev demo_engine = Inr s1" "current_level s1 = Some l"
         "level_heap s1 l = Some lv"
         "deliveries (new_trace demo_engine s') = map (\<lambda>sp. (sp, ev)) (sprites lv)"
      by blast
    have "current_level s1 = Some 1 \<and> level_heap s1 1 = Some demo_level"
      using a(1)
      by (auto simp: route_event_def HandleEvent_def HandleTime_def demo_defs Quit_def
            split: if_splits)
    with a have "lv = demo_level" by simp
    with a(4) s' show ?thesis by (auto simp: demo_level_def)
  qed
  have q: "\<exists>s'. DelegateEvent demo_env quit_event demo_engine = Inr s'"
    by (simp add: demo_defs engine_defs Let_def)
  have w: "\<exists>s'. DelegateEvent demo_env window_event demo_engine = Inr s'"
    by (simp add: window_event_def demo_defs engine_defs Let_def)
  from safe run[OF q] run[OF w] show ?thesis by blast
qed

lemma calm_step_refl: "calm_step s s"
  by (simp add: calm_step_def dispatch_step_refl quiet_step_refl)

lemma calm_step_trans: "calm_step a b \<Longrightarrow> calm_step b c \<Longrightarrow> calm_step a c"
  unfolding calm_step_def by (blast intro: dispatch_step_trans quiet_step_trans)

lemma for_each_total:
  assumes step: "\<And>x a. x \<in> set xs \<Longrightarrow> calm_step s a \<Longrightarrow> \<exists>b. body x a = Inr b \<and> calm_step a b"
  shows "calm_step s a \<Longrightarrow> \<exists>s'. for_each xs body a = Inr s' \<and> calm_step a s'"
  using step
proof (induction xs arbitrary: a)
  case Nil
  then show ?case by (simp add: calm_step_refl)
next
  case (Cons x xs)
  from Cons.prems(2)[of x a] Cons.prems(1) obtain m where m: "body x a = Inr m" "calm_step a m"
    by auto
  have sm: "calm_step s m" using Cons.prems(1) m(2) by (rule calm_step_trans)
  have "\<exists>s'. for_each xs body m = Inr s' \<and> calm_step m s'"
  proof (rule Cons.IH[OF sm])
    fix y c
    assume "y \<in> set xs" "calm_step s c"
    then show "\<exists>b. body y c = Inr b \<and> calm_step c b" using Cons.prems(2)[of y c] by simp
  qed
  then obtain s' where s': "for_each xs body m = Inr s'" "calm_step m s'" by blast
  from m s' show ?case by (auto intro: calm_step_trans)
qed

lemma exec_cmds_calm:
  assumes "list_all quiet cs"
  shows "\<exists>s'. exec_cmds cs s = Inr s' \<and> calm_step s s'"
proof -
  from exec_cmds_quiet[OF assms, of s] obtain s' where
    s': "exec_cmds cs s = Inr s'" "quiet_step s s'" by blast
  from exec_cmds_dispatch_step[OF s'(1)] s' show ?thesis by (auto simp: calm_step_def)
qed

lemma calm_step_record:
  "callback_obs ob \<Longrightarrow> ob \<noteq> Obs_Quit \<Longrightarrow> calm_step s (record_obs ob s)"
  by (simp add: calm_step_def dispatch_step_record) (simp add: quiet_step_def record_obs_def)

lemma call_event_listener_total:
  assumes "quiet_app env" and "l \<noteq> 0"
  shows "\<exists>s'. call_event_listener env l s = Inr s' \<and> calm_step s s'"
proof -
  let ?s1 = "record_obs (Obs_listener l) s"
  from assms(1) have "list_all quiet (event_listener_code env l ?s1)" by (simp add: quiet_app_def)
  from exec_cmds_calm[OF this, of ?s1] obtain s' where
    s': "exec_cmds (event_listener_code env l ?s1) ?s1 = Inr s'" "calm_step ?s1 s'" by blast
  have "calm_step s ?s1" by (simp add: calm_step_record)
  from this s'(2) have "calm_step s s'" by (rule calm_step_trans)
  with s'(1) assms(2) show ?thesis by (simp add: call_event_listener_def Let_def)
qed

lemma Sprite_DelegateEvent_total:
  assumes "quiet_app env" and "sprite_heap s sp \<noteq> None"
  shows "\<exists>s'. Sprite_DelegateEvent env sp e s = Inr s' \<and> calm_step s s'"
proof -
  let ?s1 = "record_obs (Obs_Sprite_DelegateEvent sp e) s"
  from assms(1) have "list_all quiet (Sprite_DelegateEvent_code env sp e ?s1)"
    by (simp add: quiet_app_def)
  from exec_cmds_calm[OF this, of ?s1] obtain s' where
    s': "exec_cmds (Sprite_DelegateEvent_code env sp e ?s1) ?s1 = Inr s'" "calm_step ?s1 s'" by blast
  have "calm_step s ?s1" by (simp add: calm_step_record)
  from this s'(2) have "calm_step s s'" by (rule calm_step_trans)
  with s'(1) assms(2) show ?thesis by (simp add: Sprite_DelegateEvent_def Let_def)
qed

lemma collision_test_total:
  assumes "quiet_app env" and "sprite_heap s a \<noteq> None" and "sprite_heap s b \<noteq> None"
  shows "\<exists>s'. collision_test env a b s = Inr s' \<and> calm_step s s'"
proof (cases "a \<noteq> b \<and> overlaps env s a b \<and> current_collision_listener s \<noteq> 0")
  case False
  then have "collision_test env a b s = Inr s"
    using assms(2,3) by (auto simp: collision_test_def Sprite_Contains_def overlaps_def)
  then show ?thesis by (simp add: calm_step_refl)
next
  case True
  let ?L = "current_collision_listener s"
  let ?s1 = "record_obs (Obs_collision ?L a b) s"
  from True assms(2,3) have ct: "collision_test env a b s =
      exec_cmds (collision_listener_code env ?L a b ?s1) ?s1"
    by (auto simp: collision_test_def Sprite_Contains_def overlaps_def call_collision_listener_def
          Let_def)
  from assms(1) have "list_all quiet (collision_listener_code env ?L a b ?s1)"
    by (simp add: quiet_app_def)
  from exec_cmds_calm[OF this, of ?s1] obtain s' where
    s': "exec_cmds (collision_listener_code env ?L a b ?s1) ?s1 = Inr s'" "calm_step ?s1 s'" by blast
  have "calm_step s ?s1" by (simp add: calm_step_record)
  from this s'(2) have "calm_step s s'" by (rule calm_step_trans)
  with s'(1) ct show ?thesis by simp
qed

lemma ready_calm_step:
  assumes "ready s" and "calm_step s s'"
  shows "ready s'"
  using assms
  by (auto simp: ready_def periods_fit_def calm_step_def dispatch_step_def quiet_step_def)

lemma quiet_not_changes_level: "quiet c \<Longrightarrow> \<not> changes_level c"
  by (cases c) simp_all

lemma DetectCollision_total:
  assumes "quiet_app env" and "ready s"
  shows "\<exists>s'. DetectCollision env s = Inr s' \<and> calm_step s s'"
proof -
  from assms(2) obtain l lv where lv: "current_level s = Some l" "level_heap s l = Some lv"
    "list_all (\<lambda>sp. sprite_heap s sp \<noteq> None) (sprites lv)"
    by (auto simp: ready_def)
  have gs: "current_level_GetSprites a = Inr (sprites lv)" if "calm_step s a" for a
    using that lv
    by (simp add: current_level_GetSprites_def GetSprites_def Level_sprites_def calm_step_def
          quiet_step_def)
  have alive: "sprite_heap a x \<noteq> None" if "calm_step s a" "x \<in> set (sprites lv)" for a x
    using that lv(3) by (auto simp: calm_step_def quiet_step_def list_all_iff)
  have inner: "\<exists>b. for_each (sprites lv) (collision_test env x) a = Inr b \<and> calm_step a b"
    if x: "x \<in> set (sprites lv)" and a: "calm_step s a" for x a
  proof (rule for_each_total[where s = a, OF _ calm_step_refl])
    fix y c
    assume y: "y \<in> set (sprites lv)" and c: "calm_step a c"
    from a c have "calm_step s c" by (rule calm_step_trans)
    from collision_test_total[OF assms(1) alive[OF this x] alive[OF this y]]
    show "\<exists>b. collision_test env x y c = Inr b \<and> calm_step c b" .
  qed
  have "\<exists>s'. for_each (sprites lv)
            (\<lambda>sprite s1.
               case current_level_GetSprites s1 of
                 Inl e \<Rightarrow> Inl e
               | Inr inner \<Rightarrow> for_each inner (collision_test env sprite) s1) s = Inr s' \<and>
          calm_step s s'"
  proof (rule for_each_total[where s = s, OF _ calm_step_refl])
    fix x a
    assume "x \<in> set (sprites lv)" "calm_step s a"
    then show "\<exists>b. (case current_level_GetSprites a of
                 Inl e \<Rightarrow> Inl e
               | Inr inner \<Rightarrow> for_each inner (collision_test env x) a) = Inr b \<and> calm_step a b"
      using inner[of x a] gs[of a] by simp
  qed
  then show ?thesis using gs[OF calm_step_refl] by (simp add: DetectCollision_snapshots)
qed

lemma route_event_total:
  assumes "quiet_app env" and "ready s"
    and ptr: "event_type e = time_event_type s \<longrightarrow>
              user_data1 e \<noteq> Null_ptr \<and> user_data2 e \<noteq> Null_ptr \<and>
              (user_data1 e = Frame_counter_ptr \<longrightarrow> periods_fit (sint (frame_counter s)) s)"
  shows "\<exists>s'. route_event env e s = Inr s' \<and> calm_step s s'"
proof -
  have he: "\<exists>s'. HandleEvent env e m s = Inr s' \<and> calm_step s s'" for m
    unfolding HandleEvent_def
  proof (rule for_each_total[where s = s, OF _ calm_step_refl])
    fix x a
    assume "x \<in> set (event_listeners s)" "calm_step s a"
    with assms(2) have "snd x \<noteq> 0" by (auto simp: ready_def list_all_iff)
    from call_event_listener_total[OF assms(1) this, of a]
    show "\<exists>b. HandleEvent_entry env e m x a = Inr b \<and> calm_step a b"
      by (auto simp: HandleEvent_entry_def calm_step_refl)
  qed
  have ht: "\<exists>s'. HandleTime env e s = Inr s' \<and> calm_step s s'"
    if set: "user_data1 e \<noteq> Null_ptr \<and> user_data2 e \<noteq> Null_ptr \<and>
             (user_data1 e = Frame_counter_ptr \<longrightarrow> periods_fit (sint (frame_counter s)) s)"
    unfolding HandleTime_def
  proof (rule for_each_total[where s = s, OF _ calm_step_refl])
    fix x a
    assume x: "x \<in> set (time_listeners s)" and a: "calm_step s a"
    with assms(2) have "snd x \<noteq> 0" by (auto simp: ready_def list_all_iff)
    from call_event_listener_total[OF assms(1) this, of a] obtain b where
      b: "call_event_listener env (snd x) a = Inr b" "calm_step a b" by blast
    from assms(2) have "periods_fit (fps s) s" by (simp add: ready_def)
    with set obtain f i where
      d: "deref (user_data1 e) s = Inr f" "deref (user_data2 e) s = Inr i" "periods_fit f s"
      by (cases "user_data1 e"; cases "user_data2 e") (auto simp: deref_def)
    from a have same: "deref p a = deref p s" for p
      by (cases p) (simp_all add: deref_def calm_step_def dispatch_step_def)
    from d(3) x have "int_range (period_frames f (fst x))"
      by (auto simp: periods_fit_def list_all_iff)
    then have c: "double_to_int (period_frames f (fst x)) = Inr (period_frames f (fst x))"
      by (simp add: double_to_int_def)
    show "\<exists>b. HandleTime_entry env e x a = Inr b \<and> calm_step a b"
      using b d(1,2) c by (auto simp: HandleTime_entry_def same Let_def calm_step_refl)
  qed
  have q: "calm_step s (Quit s)"
    by (simp add: calm_step_def dispatch_step_Quit) (simp add: quiet_step_def Quit_def record_obs_def)
  from he ht q ptr show ?thesis by (auto simp: route_event_def calm_step_refl)
qed

lemma PropagateEventToSprites_total:
  assumes "quiet_app env" and "level_heap s l = Some lv"
    and "list_all (\<lambda>sp. sprite_heap s sp \<noteq> None) (sprites lv)"
  shows "\<exists>s'. PropagateEventToSprites env l e s = Inr s' \<and> calm_step s s'"
proof -
  have safe: "\<forall>sp st. list_all (\<lambda>c. \<not> changes_level c) (Sprite_DelegateEvent_code env sp e st)"
  proof (intro allI)
    fix sp st
    from assms(1) have "list_all quiet (Sprite_DelegateEvent_code env sp e st)"
      by (simp add: quiet_app_def)
    then show "list_all (\<lambda>c. \<not> changes_level c) (Sprite_DelegateEvent_code env sp e st)"
      by (induction "Sprite_DelegateEvent_code env sp e st")
         (auto simp: list_all_iff dest: quiet_not_changes_level)
  qed
  have "\<exists>s'. for_each (sprites lv) (\<lambda>sprite. Sprite_DelegateEvent env sprite e) s = Inr s' \<and>
          calm_step s s'"
  proof (rule for_each_total[where s = s, OF _ calm_step_refl])
    fix x a
    assume "x \<in> set (sprites lv)" "calm_step s a"
    with assms(3) have "sprite_heap a x \<noteq> None"
      by (auto simp: calm_step_def quiet_step_def list_all_iff)
    from Sprite_DelegateEvent_total[OF assms(1) this]
    show "\<exists>b. Sprite_DelegateEvent env x e a = Inr b \<and> calm_step a b" .
  qed
  then show ?thesis by (simp add: PropagateEventToSprites_stable[OF safe assms(2)])
qed

lemma DelegateEvent_total:
  assumes "quiet_app env" and "ready s"
    and "event_type e = time_event_type s \<longrightarrow>
         user_data1 e \<noteq> Null_ptr \<and> user_data2 e \<noteq> Null_ptr \<and>
         (user_data1 e = Frame_counter_ptr \<longrightarrow> periods_fit (sint (frame_counter s)) s)"
  shows "\<exists>s'. DelegateEvent env e s = Inr s' \<and> calm_step s s'"
proof -
  from route_event_total[OF assms] obtain s1 where
    s1: "route_event env e s = Inr s1" "calm_step s s1" by blast
  from ready_calm_step[OF assms(2) s1(2)] obtain l lv where
    lv: "current_level s1 = Some l" "level_heap s1 l = Some lv"
    "list_all (\<lambda>sp. sprite_heap s1 sp \<noteq> None) (sprites lv)"
    by (auto simp: ready_def)
  from PropagateEventToSprites_total[OF assms(1) lv(2,3), of e] obtain s' where
    s': "PropagateEventToSprites env l e s1 = Inr s'" "calm_step s1 s'" by blast
  from s1(2) s'(2) have "calm_step s s'" by (rule calm_step_trans)
  with s1(1) lv(1) s'(1) show ?thesis by (simp add: DelegateEvent_def)
qed

lemma PollEvent_total:
  assumes "quiet_app env"
  shows "ready s \<Longrightarrow> \<exists>s'. PollEvent env s = Inr s' \<and> ready s' \<and> queue s' = []"
proof (induction "queue s" arbitrary: s)
  case Nil
  then show ?case by (simp add: PollEvent.simps SDL_PollEvent_def)
next
  case (Cons e q)
  let ?s1 = "s\<lparr>queue := q\<rparr>"
  from Cons.hyps(2)[symmetric] Cons.prems have r1: "ready ?s1"
    and ptr: "event_type e = time_event_type ?s1 \<longrightarrow>
              user_data1 e \<noteq> Null_ptr \<and> user_data2 e \<noteq> Null_ptr \<and>
              (user_data1 e = Frame_counter_ptr \<longrightarrow> periods_fit (sint (frame_counter ?s1)) ?s1)"
    by (simp_all add: ready_def periods_fit_def)
  from DelegateEvent_total[OF assms r1 ptr] obtain m where
    m: "DelegateEvent env e ?s1 = Inr m" "calm_step ?s1 m" by blast
  have rm: "ready m" by (rule ready_calm_step[OF r1 m(2)])
  have "q = queue m" using m(2) by (simp add: calm_step_def dispatch_step_def)
  from Cons.hyps(1)[OF this rm] obtain s' where
    s': "PollEvent env m = Inr s'" "ready s'" "queue s' = []" by blast
  have "PollEvent env s = Inr s'"
    using Cons.hyps(2)[symmetric] m(1) s'(1)
    by (subst PollEvent.simps) (simp add: SDL_PollEvent_def)
  with s'(2,3) show ?case by blast
qed

lemma ready_EmitTimeEvent: "ready s \<Longrightarrow> queue s = [] \<Longrightarrow> ready (EmitTimeEvent s)"
  by (auto simp: ready_def periods_fit_def EmitTimeEvent_def SDL_RegisterEvents_def
        SDL_PushEvent_def record_obs_def time_event_def Let_def)

text \<open>
  An iteration of the main loop returns when it starts in a ready state of a quiet
  application, and the state it returns is ready again. So the loop of such an
  application never meets undefined behaviour: within any bound it either is still
  running or has returned a state.
\<close>

lemma Run_iteration_returns:
  assumes "quiet_app env" and "ready s"
  shows "\<exists>s'. Run_iteration env s = Inr s' \<and> ready s'"
proof -
  let ?s1 = "snd (GetTimestamp env s)"
  have "ready ?s1"
    using assms(2)
    by (simp add: ready_def periods_fit_def GetTimestamp_def record_obs_def)
  from PollEvent_total[OF assms(1) this] obtain s2 where
    s2: "PollEvent env ?s1 = Inr s2" "ready s2" "queue s2 = []" by blast
  let ?s4 = "(Window_DrawSprites (time_elapsed s2) s2)\<lparr>frame_counter := frame_counter s2 + 1\<rparr>"
  have r4: "ready ?s4"
    using s2(2,3) by (simp add: ready_def periods_fit_def Window_DrawSprites_def record_obs_def)
  from DetectCollision_total[OF assms(1) r4] obtain s5 where
    s5: "DetectCollision env ?s4 = Inr s5" "calm_step ?s4 s5" by blast
  let ?s6 = "EmitTimeEvent s5"
  have "queue s5 = []"
    using s5(2) s2(3) by (simp add: calm_step_def dispatch_step_def Window_DrawSprites_def record_obs_def)
  with ready_calm_step[OF r4 s5(2)] have r6: "ready ?s6" by (rule ready_EmitTimeEvent)
  then have nz: "fps ?s6 \<noteq> 0" by (simp add: ready_def)
  let ?s' = "SetTimeElapsed (clock env (ticks s))
               (fst (GetTimestamp env (SDL_Delay (word_of_int (1000 sdiv fps ?s6)) ?s6)))
               (snd (GetTimestamp env (SDL_Delay (word_of_int (1000 sdiv fps ?s6)) ?s6)))"
  have "ready ?s'"
    using r6
    by (simp add: ready_def periods_fit_def SetTimeElapsed_def GetTimestamp_def
          SDL_Delay_def record_obs_def)
  moreover have "Run_iteration env s = Inr ?s'"
    using s2(1) s5(1) nz
    by (simp add: Run_iteration_def GetTimestamp_def Let_def Window_DrawSprites_def record_obs_def)
  ultimately show ?thesis by blast
qed

lemma Run_loop_no_error:
  assumes "quiet_app env"
  shows "ready s \<Longrightarrow> Run_loop env n s = None \<or> (\<exists>s'. Run_loop env n s = Some (Inr s'))"
proof (induction n arbitrary: s)
  case 0
  then show ?case by simp
next
  case (Suc n)
  from Run_iteration_returns[OF assms Suc.prems] obtain m where
    m: "Run_iteration env s = Inr m" "ready m" by blast
  from Suc.IH[OF m(2)] m(1) show ?case by simp
qed

text \<open>
  Claim C6. In an iteration of the main loop with a positive \<^verbatim>\<open>fps\<close>, exactly one
  call of \<^verbatim>\<open>SDL_Delay\<close> is made and its argument is \<open>1000 div fps\<close> milliseconds,
  whatever the clock readings, the queued events and the callbacks of that iteration are.
\<close>

theorem Run_iteration_sleep:
  assumes "0 < fps s" and "Run_iteration env s = Inr s'"
  shows "delays (new_trace s s') = [word_of_int (1000 div fps s)] \<and>
         uint (word_of_int (1000 div fps s) :: Uint32) = 1000 div fps s"
proof -
  from Run_iteration_trace[OF assms(2)] obtain tp tc te where
    tr: "trace s' = trace s @ [Obs_GetTimestamp] @ tp @ [Obs_DrawSprites (time_elapsed s)] @ tc @ te @
                [Obs_SDL_Delay (word_of_int (1000 sdiv fps s)), Obs_GetTimestamp]"
    and cl: "list_all callback_obs tp" "list_all callback_obs tc" "list_all emit_obs te"
    by blast
  have "delays (new_trace s s') = [word_of_int (1000 sdiv fps s)]"
    using cl by (simp add: new_trace_def tr delays_append delays_callback_obs delays_emit_obs)
  moreover have "0 \<le> 1000 div fps s" "1000 div fps s \<le> 1000"
    using assms(1) zdiv_mono2[of 1000 1 "fps s"] by (simp_all add: pos_imp_zdiv_nonneg_iff)
  then have "uint (word_of_int (1000 div fps s) :: Uint32) = 1000 div fps s"
    by (simp add: uint_word_of_int_eq take_bit_int_eq_self)
  ultimately show ?thesis using assms(1) by (simp add: sdiv_pos)
qed

text \<open>At 30 frames per second the iteration sleeps 33 ms.\<close>

theorem Run_iteration_sleep_witness:
  "0 < fps demo_engine \<and>
   (\<exists>s'. Run_iteration demo_env demo_engine = Inr s' \<and>
         delays (new_trace demo_engine s') = [33] \<and>
         uint (word_of_int (1000 div fps demo_engine) :: Uint32) = 33)"
proof -
  have pos: "0 < fps demo_engine" by (simp add: demo_defs)
  have "\<exists>s'. Run_iteration demo_env demo_engine = Inr s'"
    by (simp add: demo_defs engine_defs Let_def)
  then obtain s' where run: "Run_iteration demo_env demo_engine = Inr s'" ..
  have "(1000::int) div fps demo_engine = 33" by (simp add: demo_defs)
  with Run_iteration_sleep[OF pos run] pos run show ?thesis by simp
qed

text \<open>
  Claim C5. An iteration of \<^verbatim>\<open>Run\<close> returns when it starts in a ready state of a
  quiet application, and every iteration that returns has gone through these stages, in
  this order: a timestamp, \<^verbatim>\<open>PollEvent\<close> (which leaves the queue empty), the redraw
  request with the elapsed time of the previous iteration, the increment of the frame
  counter by one, \<^verbatim>\<open>DetectCollision\<close>, \<^verbatim>\<open>EmitTimeEvent\<close>, \<^verbatim>\<open>SDL_Delay\<close>, a second
  timestamp, and the update of \<^verbatim>\<open>time_elapsed\<close> to the difference of the two
  timestamps. The trace of the iteration
  is the concatenation of the traces of the stages: dispatch and the collision pass add
  only callback entries, the emission only platform entries.
\<close>

theorem Run_iteration_steps:
  "(quiet_app env \<and> ready s \<longrightarrow> (\<exists>s'. Run_iteration env s = Inr s')) \<and>
   (\<forall>s'. Run_iteration env s = Inr s' \<longrightarrow>
   (\<exists>s1 s2 s4 s5 s6.
     s1 = snd (GetTimestamp env s) \<and>
     PollEvent env s1 = Inr s2 \<and> queue s2 = [] \<and>
     s4 = (Window_DrawSprites (time_elapsed s2) s2)\<lparr>frame_counter := frame_counter s2 + 1\<rparr> \<and>
     DetectCollision env s4 = Inr s5 \<and>
     s6 = EmitTimeEvent s5 \<and>
     s' = SetTimeElapsed (clock env (ticks s)) (clock env (Suc (ticks s)))
            (snd (GetTimestamp env (SDL_Delay (word_of_int (1000 sdiv fps s)) s6))) \<and>
     trace s' = trace s @ [Obs_GetTimestamp] @ new_trace s1 s2 @ [Obs_DrawSprites (time_elapsed s)] @
                new_trace s4 s5 @ new_trace s5 s6 @
                [Obs_SDL_Delay (word_of_int (1000 sdiv fps s)), Obs_GetTimestamp] \<and>
     list_all callback_obs (new_trace s1 s2) \<and> list_all callback_obs (new_trace s4 s5) \<and>
     list_all emit_obs (new_trace s5 s6) \<and>
     frame_counter s2 = frame_counter s \<and> frame_counter s4 = frame_counter s + 1 \<and>
     frame_counter s' = frame_counter s + 1 \<and>
     time_elapsed s' = clock env (Suc (ticks s)) - clock env (ticks s)))"
proof (intro conjI impI allI)
  assume "quiet_app env \<and> ready s"
  then obtain s' where "Run_iteration env s = Inr s'"
    using Run_iteration_returns[of env s] by blast
  then show "\<exists>s'. Run_iteration env s = Inr s'" ..
next
  fix s'
  assume run: "Run_iteration env s = Inr s'"
  from Run_iteration_stages[OF run] obtain s1 s2 s4 s5 s6 where
    s1: "s1 = snd (GetTimestamp env s)" and
    s2: "PollEvent env s1 = Inr s2" and
    s4: "s4 = (Window_DrawSprites (time_elapsed s2) s2)\<lparr>frame_counter := frame_counter s2 + 1\<rparr>" and
    s5: "DetectCollision env s4 = Inr s5" and
    s6: "s6 = EmitTimeEvent s5" and
    nz: "fps s6 \<noteq> 0" and
    s': "s' = SetTimeElapsed (clock env (ticks s)) (fst (GetTimestamp env (SDL_Delay (word_of_int (1000 sdiv fps s6)) s6)))
            (snd (GetTimestamp env (SDL_Delay (word_of_int (1000 sdiv fps s6)) s6)))"
    by blast
  have d1: "dispatch_step (s1\<lparr>queue := []\<rparr>) s2" by (rule PollEvent_dispatch_step[OF s2])
  have d2: "dispatch_step s4 s5" by (rule DetectCollision_dispatch_step[OF s5])
  have f1: "fps s1 = fps s" "frame_counter s1 = frame_counter s" "time_elapsed s1 = time_elapsed s"
    "ticks s1 = Suc (ticks s)" "trace s1 = trace s @ [Obs_GetTimestamp]"
    by (simp_all add: s1 GetTimestamp_def record_obs_def)
  have n1: "new_trace (s1\<lparr>queue := []\<rparr>) s2 = new_trace s1 s2" by (simp add: new_trace_def)
  have f2: "fps s2 = fps s" "frame_counter s2 = frame_counter s" "time_elapsed s2 = time_elapsed s"
    "ticks s2 = Suc (ticks s)" "trace s2 = trace s @ [Obs_GetTimestamp] @ new_trace s1 s2"
    "list_all callback_obs (new_trace s1 s2)" "queue s2 = []"
    using d1 dispatch_step_new_trace[OF d1] f1 by (simp_all add: dispatch_step_def n1)
  have f4: "fps s4 = fps s" "frame_counter s4 = frame_counter s + 1" "time_elapsed s4 = time_elapsed s"
    "ticks s4 = Suc (ticks s)"
    "trace s4 = trace s @ [Obs_GetTimestamp] @ new_trace s1 s2 @ [Obs_DrawSprites (time_elapsed s)]"
    using f2 by (simp_all add: s4 Window_DrawSprites_def record_obs_def)
  have f5: "fps s5 = fps s" "frame_counter s5 = frame_counter s + 1" "time_elapsed s5 = time_elapsed s"
    "ticks s5 = Suc (ticks s)"
    "trace s5 = trace s @ [Obs_GetTimestamp] @ new_trace s1 s2 @ [Obs_DrawSprites (time_elapsed s)] @
       new_trace s4 s5"
    "list_all callback_obs (new_trace s4 s5)"
    using d2 dispatch_step_new_trace[OF d2] f4 by (simp_all add: dispatch_step_def)
  have f6: "fps s6 = fps s" "frame_counter s6 = frame_counter s + 1" "time_elapsed s6 = time_elapsed s"
    "ticks s6 = Suc (ticks s)"
    "trace s6 = trace s @ [Obs_GetTimestamp] @ new_trace s1 s2 @ [Obs_DrawSprites (time_elapsed s)] @
       new_trace s4 s5 @ new_trace s5 s6"
    "list_all emit_obs (new_trace s5 s6)"
    using f5 EmitTimeEvent_trace[of s5] by (simp_all add: s6 EmitTimeEvent_fields)
  have e: "s' = SetTimeElapsed (clock env (ticks s)) (clock env (Suc (ticks s)))
            (snd (GetTimestamp env (SDL_Delay (word_of_int (1000 sdiv fps s)) s6)))"
    using f6 by (simp add: s' GetTimestamp_def SDL_Delay_def record_obs_def)
  have "trace s' = trace s @ [Obs_GetTimestamp] @ new_trace s1 s2 @ [Obs_DrawSprites (time_elapsed s)] @
                new_trace s4 s5 @ new_trace s5 s6 @
                [Obs_SDL_Delay (word_of_int (1000 sdiv fps s)), Obs_GetTimestamp]"
    "frame_counter s' = frame_counter s + 1"
    "time_elapsed s' = clock env (Suc (ticks s)) - clock env (ticks s)"
    using f6 by (simp_all add: e SetTimeElapsed_def GetTimestamp_def SDL_Delay_def record_obs_def)
  with s1 s2 s4 s5 s6 e f2(2,6,7) f4(2) f5(6) f6(6) show "\<exists>s1 s2 s4 s5 s6.
     s1 = snd (GetTimestamp env s) \<and>
     PollEvent env s1 = Inr s2 \<and> queue s2 = [] \<and>
     s4 = (Window_DrawSprites (time_elapsed s2) s2)\<lparr>frame_counter := frame_counter s2 + 1\<rparr> \<and>
     DetectCollision env s4 = Inr s5 \<and>
     s6 = EmitTimeEvent s5 \<and>
     s' = SetTimeElapsed (clock env (ticks s)) (clock env (Suc (ticks s)))
            (snd (GetTimestamp env (SDL_Delay (word_of_int (1000 sdiv fps s)) s6))) \<and>
     trace s' = trace s @ [Obs_GetTimestamp] @ new_trace s1 s2 @ [Obs_DrawSprites (time_elapsed s)] @
                new_trace s4 s5 @ new_trace s5 s6 @
                [Obs_SDL_Delay (word_of_int (1000 sdiv fps s)), Obs_GetTimestamp] \<and>
     list_all callback_obs (new_trace s1 s2) \<and> list_all callback_obs (new_trace s4 s5) \<and>
     list_all emit_obs (new_trace s5 s6) \<and>
     frame_counter s2 = frame_counter s \<and> frame_counter s4 = frame_counter s + 1 \<and>
     frame_counter s' = frame_counter s + 1 \<and>
     time_elapsed s' = clock env (Suc (ticks s)) - clock env (ticks s)"
    by blast
qed

text \<open>One iteration of the concrete engine with a quit event queued.\<close>

theorem Run_iteration_steps_witness:
  "quiet_app demo_env \<and> ready (demo_engine\<lparr>queue := [quit_event]\<rparr>) \<and>
   (\<exists>s'. Run_iteration demo_env (demo_engine\<lparr>queue := [quit_event]\<rparr>) = Inr s' \<and>
     trace s' = trace demo_engine @
       [Obs_GetTimestamp, Obs_Quit, Obs_Sprite_DelegateEvent 1 quit_event,
        Obs_Sprite_DelegateEvent 2 quit_event, Obs_DrawSprites 0,
        Obs_collision 9 1 2, Obs_collision 9 2 1, Obs_SDL_RegisterEvents,
        Obs_SDL_PushEvent (time_event 0x8000), Obs_SDL_Delay 33, Obs_GetTimestamp] \<and>
     frame_counter s' = 1 \<and> time_elapsed s' = 40)"
proof -
  let ?s = "demo_engine\<lparr>queue := [quit_event]\<rparr>"
  have qa: "quiet_app demo_env" by (simp add: quiet_app_def demo_env_def)
  have rd: "ready ?s" by (simp add: ready_def periods_fit_def demo_defs SDL_QUIT_def)
  from Run_iteration_steps[of demo_env ?s] qa rd
  obtain s' where run: "Run_iteration demo_env ?s = Inr s'" by blast
  from Run_iteration_steps[of demo_env ?s] run have
    fc: "frame_counter s' = frame_counter ?s + 1" and
    te: "time_elapsed s' = clock demo_env (Suc (ticks ?s)) - clock demo_env (ticks ?s)"
    by blast+
  have a: "frame_counter s' = 1" "time_elapsed s' = 40" using fc te by (simp_all add: demo_defs)
  have "\<exists>t. Run_iteration demo_env ?s = Inr t \<and>
     trace t = trace demo_engine @
       [Obs_GetTimestamp, Obs_Quit, Obs_Sprite_DelegateEvent 1 quit_event,
        Obs_Sprite_DelegateEvent 2 quit_event, Obs_DrawSprites 0,
        Obs_collision 9 1 2, Obs_collision 9 2 1, Obs_SDL_RegisterEvents,
        Obs_SDL_PushEvent (time_event 0x8000), Obs_SDL_Delay 33, Obs_GetTimestamp]"
    by (simp add: demo_defs engine_defs Let_def signed_divide_int_def)
  with run have tr: "trace s' = trace demo_engine @
       [Obs_GetTimestamp, Obs_Quit, Obs_Sprite_DelegateEvent 1 quit_event,
        Obs_Sprite_DelegateEvent 2 quit_event, Obs_DrawSprites 0,
        Obs_collision 9 1 2, Obs_collision 9 2 1, Obs_SDL_RegisterEvents,
        Obs_SDL_PushEvent (time_event 0x8000), Obs_SDL_Delay 33, Obs_GetTimestamp]"
    by auto
  from qa rd run tr a show ?thesis by blast
qed



end
